theory Spec2Isabelle
  imports Main
begin

section \<open>Text primitives of the host language\<close>

text \<open>
  Lines are strings of code units. The model keeps the code units below 256, so the
  white space class of the regular expressions (\<open>\s\<close>) and of \<open>String.prototype.trim\<close>
  is TAB, LF, VT, FF, CR, SPACE and NBSP; both use the same class. The dot of a regular
  expression excludes the line terminators LF and CR, and \<open>\w\<close> is an ASCII letter, a
  digit or the underscore.
\<close>

definition is_space :: "char \<Rightarrow> bool" where
  "is_space c \<longleftrightarrow>
     c = CHR 0x09 \<or> c = CHR 0x0A \<or> c = CHR 0x0B \<or> c = CHR 0x0C \<or> c = CHR 0x0D
     \<or> c = CHR 0x20 \<or> c = CHR 0xA0"

definition is_lt :: "char \<Rightarrow> bool" where
  "is_lt c \<longleftrightarrow> c = CHR 0x0A \<or> c = CHR 0x0D"

definition is_word :: "char \<Rightarrow> bool" where
  "is_word c \<longleftrightarrow>
     (let n = (of_char c :: nat)
      in (48 \<le> n \<and> n \<le> 57) \<or> (65 \<le> n \<and> n \<le> 90) \<or> (97 \<le> n \<and> n \<le> 122) \<or> n = 95)"

text \<open>\<open>s.trim()\<close>\<close>

definition trim :: "string \<Rightarrow> string" where
  "trim s = rev (dropWhile is_space (rev (dropWhile is_space s)))"

text \<open>\<open>s.startsWith(p)\<close>\<close>

definition startsWith :: "string \<Rightarrow> string \<Rightarrow> bool" where
  "startsWith s p \<longleftrightarrow> take (length p) s = p"

text \<open>
  \<open>s.split(/\s+/)\<close>: the pieces between maximal runs of white space; a separator at
  either end of the string leaves an empty piece there, and the result is never empty.
\<close>

function split_ws :: "string \<Rightarrow> string list" where
  "split_ws s =
     (let a = takeWhile (\<lambda>c. \<not> is_space c) s;
          r = dropWhile (\<lambda>c. \<not> is_space c) s
      in if r = [] then [a] else a # split_ws (dropWhile is_space r))"
  by pat_completeness auto

lemma dropWhile_shorter:
  "r = dropWhile (\<lambda>c. \<not> P c) s \<Longrightarrow> r \<noteq> [] \<Longrightarrow> length (dropWhile P r) < length s"
proof -
  assume r: "r = dropWhile (\<lambda>c. \<not> P c) s" and ne: "r \<noteq> []"
  from ne obtain c cs where rc: "r = c # cs" by (cases r) auto
  have "P c" using r rc by (auto simp: dropWhile_eq_Cons_conv dest: sym)
  then have "length (dropWhile P r) \<le> length cs"
    using rc by (simp add: length_dropWhile_le)
  moreover have "length r \<le> length s" using r by (simp add: length_dropWhile_le)
  ultimately show ?thesis using rc by simp
qed

termination split_ws
  by (relation "measure length") (auto intro: dropWhile_shorter)

declare split_ws.simps [simp del]

section \<open>Directive recognizer\<close>

datatype role = block_default | block_replace | block_append | block

datatype directive =
    Block role string
  | Endblock
  | Other string "string list"

datatype error = InvalidDirective string

text \<open>
  The match of \<open>/^\/\/\s*(@\w+(?:\s+.+)?)\s*$/\<close> against a string, giving capture
  group 1 with its surrounding white space trimmed (the source trims the capture
  before use). After \<open>//\<close> and a maximal run of white space comes \<open>@\<close> and a maximal,
  non-empty run of word characters (a shorter run cannot be followed by white space or
  the end). The rest \<open>r\<close> of the string matches either \<open>\s*$\<close>, when it is all white
  space, or \<open>\s+.+\s*$\<close>: then it starts with white space, and what follows the first
  line terminator after its leading white space is all white space.
\<close>

definition directive_match :: "string \<Rightarrow> string option" where
  "directive_match t =
     (if startsWith t ''//'' then
        (case dropWhile is_space (drop 2 t) of
           [] \<Rightarrow> None
         | c # b \<Rightarrow>
             if c \<noteq> CHR ''@'' then None
             else
               let w = takeWhile is_word b; r = dropWhile is_word b
               in if w = [] then None
                  else if list_all is_space r then Some (CHR ''@'' # w)
                  else if is_space (hd r)
                          \<and> list_all is_space
                               (dropWhile (\<lambda>c. \<not> is_lt c) (dropWhile is_space r))
                       then Some (trim (CHR ''@'' # w @ r))
                  else None)
      else None)"

text \<open>
  \<open>parseTemplateLine\<close>: the four block commands throw unless they have exactly one
  argument; \<open>null\<close> is \<open>None\<close>.
\<close>

definition parseTemplateLine :: "string \<Rightarrow> error + directive option" where
  "parseTemplateLine line =
     (let trimmed = trim line
      in case directive_match trimmed of
           None \<Rightarrow> Inr None
         | Some directive \<Rightarrow>
             let parts = split_ws directive;
                 command = hd parts;
                 args = tl parts
             in if command = ''@block_default'' \<or> command = ''@block_replace''
                   \<or> command = ''@block_append'' \<or> command = ''@block''
                then if length args \<noteq> 1 then Inl (InvalidDirective command)
                     else Inr (Some (Block
                            (if command = ''@block_default'' then block_default
                             else if command = ''@block_replace'' then block_replace
                             else if command = ''@block_append'' then block_append
                             else block)
                            (hd args)))
                else if command = ''@endblock'' then Inr (Some Endblock)
                else Inr (Some (Other (drop 1 command) args)))"

text \<open>
  \<open>getCommentIndent\<close>: \<open>/^(\s*)\/\/(\s*)/\<close>, the text up to and including the white
  space that follows \<open>//\<close>.
\<close>

definition getCommentIndent :: "string \<Rightarrow> string option" where
  "getCommentIndent line =
     (let rest = dropWhile is_space line
      in if startsWith rest ''//''
         then Some (takeWhile is_space line @ ''//'' @ takeWhile is_space (drop 2 rest))
         else None)"

text \<open>
  \<open>line.match(/^(\s*)\/\/(\s*)(.*)/)\<close>: line indent, comment spaces and the content
  text, which stops at the first line terminator.
\<close>

definition contentMatch :: "string \<Rightarrow> (string \<times> string \<times> string) option" where
  "contentMatch line =
     (let rest = dropWhile is_space line
      in if startsWith rest ''//''
         then Some (takeWhile is_space line,
                    takeWhile is_space (drop 2 rest),
                    takeWhile (\<lambda>c. \<not> is_lt c) (dropWhile is_space (drop 2 rest)))
         else None)"

section \<open>Indentation-aware content extractor\<close>

text \<open>
  One parsed template line. \<open>finalContent\<close> is absent (\<open>undefined\<close>) until the
  normalisation pass of \<open>parseTemplateContent\<close> sets it.
\<close>

record item =
  indent :: string
  commentSpaces :: string
  contentText :: string
  originalLine :: string
  isEmpty :: bool
  finalContent :: "string option"

text \<open>
  The body of the \<open>while\<close> loop of \<open>parseTemplateContent\<close> on one line: the loop
  breaks, the exception of \<open>parseTemplateLine\<close> propagates, or the line is consumed,
  pushing an item (no item if the content pattern did not match).
\<close>

datatype content_step = Break | Throw error | Consume "item option"

definition contentLineStep :: "string \<Rightarrow> string \<Rightarrow> content_step" where
  "contentLineStep baseIndent line =
     (let trimmed = trim line
      in if startsWith trimmed ''//'' then
           (case parseTemplateLine line of
              Inl e \<Rightarrow> Throw e
            | Inr (Some directive) \<Rightarrow> Break
            | Inr None \<Rightarrow>
                (case getCommentIndent line of
                   None \<Rightarrow> Break
                 | Some commentIndent \<Rightarrow>
                     let isEmptyComment = (trimmed = ''//'');
                         hasValidIndent =
                           (length commentIndent \<ge> length baseIndent \<or> isEmptyComment)
                     in if hasValidIndent then
                          (case contentMatch line of
                             None \<Rightarrow> Consume None
                           | Some (lineIndent, spaces, text) \<Rightarrow>
                               Consume (Some
                                 \<lparr>indent = lineIndent, commentSpaces = spaces,
                                  contentText = text, originalLine = line,
                                  isEmpty = (trim text = []),
                                  finalContent = None\<rparr>))
                        else Break))
         else Break)"

text \<open>
  The loop itself: it returns the collected items, the index \<open>i\<close> at which it stopped
  and the template indentation, which the first consumed line with text fixes.
\<close>

function ptc_loop ::
  "string list \<Rightarrow> string \<Rightarrow> nat \<Rightarrow> item list \<Rightarrow> string option
   \<Rightarrow> error + (item list \<times> nat \<times> string option)" where
  "ptc_loop lns baseIndent i content templateIndent =
     (if i < length lns then
        (case contentLineStep baseIndent (lns ! i) of
           Throw e \<Rightarrow> Inl e
         | Break \<Rightarrow> Inr (content, i, templateIndent)
         | Consume None \<Rightarrow> ptc_loop lns baseIndent (i + 1) content templateIndent
         | Consume (Some it) \<Rightarrow>
             ptc_loop lns baseIndent (i + 1) (content @ [it])
               (if templateIndent = None \<and> trim (contentText it) \<noteq> []
                then Some (commentSpaces it) else templateIndent))
      else Inr (content, i, templateIndent))"
  by pat_completeness auto

termination ptc_loop
  by (relation "measure (\<lambda>(lns, baseIndent, i, content, templateIndent). length lns - i)")
     auto

declare ptc_loop.simps [simp del]

text \<open>The callback of \<open>content.map\<close>: the indentation rules for one item.\<close>

definition applyTemplateIndent :: "string option \<Rightarrow> item \<Rightarrow> item" where
  "applyTemplateIndent templateIndent it =
     (if isEmpty it then it\<lparr>finalContent := Some []\<rparr>
      else
        (case templateIndent of
           Some ti \<Rightarrow>
             if startsWith (commentSpaces it) ti
             then it\<lparr>finalContent := Some (drop (length ti) (commentSpaces it) @ contentText it)\<rparr>
             else if length (commentSpaces it) < length ti \<and> trim (contentText it) \<noteq> []
             then it\<lparr>finalContent := Some (contentText it)\<rparr>
             else if commentSpaces it = [] \<and> trim (contentText it) \<noteq> []
             then it\<lparr>finalContent := Some (contentText it)\<rparr>
             else it\<lparr>finalContent := Some (commentSpaces it @ contentText it)\<rparr>
         | None \<Rightarrow>
             if commentSpaces it = [] \<and> trim (contentText it) \<noteq> []
             then it\<lparr>finalContent := Some (contentText it)\<rparr>
             else it\<lparr>finalContent := Some (commentSpaces it @ contentText it)\<rparr>))"

text \<open>\<open>parseTemplateContent\<close> returns \<open>{content, nextLine, templateIndent}\<close>.\<close>

definition parseTemplateContent ::
  "string list \<Rightarrow> nat \<Rightarrow> string \<Rightarrow> error + (item list \<times> nat \<times> string option)" where
  "parseTemplateContent lines startIdx baseIndent =
     (case ptc_loop lines baseIndent startIdx [] None of
        Inl e \<Rightarrow> Inl e
      | Inr (content, i, templateIndent) \<Rightarrow>
          Inr (map (applyTemplateIndent templateIndent) content, i, templateIndent))"

section \<open>File scanner and block registry\<close>

record entry =
  e_content :: "item list"
  e_filePath :: string
  e_indent :: string

record blockInfo =
  default :: "entry option"
  replaces :: "entry list"
  appends :: "entry list"

record blockData =
  b_type :: role
  b_blockId :: string
  b_startLine :: nat
  b_endLine :: nat
  b_indent :: string
  b_content :: "item list"

record fileData =
  f_lines :: "string list"
  f_blocks :: "blockData list"

type_synonym registry = "string \<rightharpoonup> blockInfo"

text \<open>
  The entry of an identifier, created empty when the registry does not have it
  (\<open>if (!this.blocks.has(id)) this.blocks.set(id, ...)\<close> followed by \<open>this.blocks.get(id)\<close>).
\<close>

definition blockInfoOf :: "registry \<Rightarrow> string \<Rightarrow> blockInfo" where
  "blockInfoOf reg bid =
     (case reg bid of
        Some info \<Rightarrow> info
      | None \<Rightarrow> \<lparr>default = None, replaces = [], appends = []\<rparr>)"

text \<open>The inner loop of \<open>parseFile\<close> that looks for the closing \<open>@endblock\<close>.\<close>

function findEndblock :: "string list \<Rightarrow> nat \<Rightarrow> error + nat" where
  "findEndblock lines endLine =
     (if endLine < length lines then
        (case parseTemplateLine (lines ! endLine) of
           Inl e \<Rightarrow> Inl e
         | Inr (Some Endblock) \<Rightarrow> Inr endLine
         | Inr _ \<Rightarrow> findEndblock lines (endLine + 1))
      else Inr endLine)"
  by pat_completeness auto

termination findEndblock
  by (relation "measure (\<lambda>(lines, endLine). length lines - endLine)") auto

declare findEndblock.simps [simp del]

text \<open>
  One iteration of the \<open>while (i < lines.length)\<close> loop of \<open>parseFile\<close>, on the scan
  index, the occurrences recorded for the file so far and the registry. The comment
  indent of a directive line is never \<open>null\<close> (lemma \<open>directive_line_has_indent\<close>
  below); the model gives the impossible case the error \<open>NullIndent\<close>.
\<close>

datatype scan_error = Thrown error | NullIndent

definition scanStep ::
  "string \<Rightarrow> string list \<Rightarrow> nat \<Rightarrow> blockData list \<Rightarrow> registry
   \<Rightarrow> scan_error + (nat \<times> blockData list \<times> registry)" where
  "scanStep filePath lns i bs reg =
     (let line = lns ! i
      in case parseTemplateLine line of
           Inl e \<Rightarrow> Inl (Thrown e)
         | Inr (Some (Block ty bid)) \<Rightarrow>
             (case getCommentIndent line of
                None \<Rightarrow> Inl NullIndent
              | Some baseIndent \<Rightarrow>
                  if ty = block_default \<or> ty = block then
                    (case findEndblock lns (i + 1) of
                       Inl e \<Rightarrow> Inl (Thrown e)
                     | Inr endLn \<Rightarrow>
                         (case (if ty = block_default
                                then parseTemplateContent lns (i + 1) baseIndent
                                else Inr ([], i + 1, None)) of
                            Inl e \<Rightarrow> Inl (Thrown e)
                          | Inr (content, nextLn, ti) \<Rightarrow>
                              let blockData =
                                    \<lparr>b_type = ty, b_blockId = bid, b_startLine = i,
                                     b_endLine = endLn, b_indent = baseIndent,
                                     b_content = content\<rparr>;
                                  info = blockInfoOf reg bid;
                                  info' =
                                    (if ty = block_default
                                     then info\<lparr>default :=
                                            Some \<lparr>e_content = content, e_filePath = filePath,
                                                  e_indent = baseIndent\<rparr>\<rparr>
                                     else info)
                              in Inr (endLn + 1, bs @ [blockData], reg(bid \<mapsto> info'))))
                  else
                    (case parseTemplateContent lns (i + 1) baseIndent of
                       Inl e \<Rightarrow> Inl (Thrown e)
                     | Inr (content, nextLn, ti) \<Rightarrow>
                         let info = blockInfoOf reg bid;
                             occ = \<lparr>e_content = content, e_filePath = filePath,
                                    e_indent = baseIndent\<rparr>;
                             info' =
                               (if ty = block_replace
                                then info\<lparr>replaces := replaces info @ [occ]\<rparr>
                                else if ty = block_append
                                then info\<lparr>appends := appends info @ [occ]\<rparr>
                                else info)
                         in Inr (nextLn, bs, reg(bid \<mapsto> info'))))
         | Inr _ \<Rightarrow> Inr (i + 1, bs, reg))"

lemma ptc_loop_nextLine:
  "ptc_loop lns b i c t = Inr (c', n, t') \<Longrightarrow> i \<le> n"
proof (induction lns b i c t rule: ptc_loop.induct)
  case (1 lns b i c t)
  show ?case
  proof (cases "i < length lns")
    case False
    then show ?thesis using "1.prems" by (simp add: ptc_loop.simps)
  next
    case True
    show ?thesis
    proof (cases "contentLineStep b (lns ! i)")
      case Break
      then show ?thesis using True "1.prems" by (simp add: ptc_loop.simps)
    next
      case (Throw e)
      then show ?thesis using True "1.prems" by (simp add: ptc_loop.simps)
    next
      case (Consume x)
      show ?thesis
      proof (cases x)
        case None
        then have "ptc_loop lns b (i + 1) c t = Inr (c', n, t')"
          using True Consume "1.prems" by (simp add: ptc_loop.simps [of lns b i])
        then have "i + 1 \<le> n" using "1.IH"(1) True Consume None by blast
        then show ?thesis by simp
      next
        case (Some it)
        let ?t = "if t = None \<and> trim (contentText it) \<noteq> [] then Some (commentSpaces it) else t"
        have "ptc_loop lns b (i + 1) (c @ [it]) ?t = Inr (c', n, t')"
          using True Consume Some "1.prems" by (simp add: ptc_loop.simps [of lns b i])
        then have "i + 1 \<le> n" using "1.IH"(2) True Consume Some by blast
        then show ?thesis by simp
      qed
    qed
  qed
qed

lemma parseTemplateContent_nextLine:
  "parseTemplateContent lns s b = Inr (c, n, t) \<Longrightarrow> s \<le> n"
  by (auto simp: parseTemplateContent_def split: sum.splits prod.splits
           dest: ptc_loop_nextLine)

lemma findEndblock_ge:
  "findEndblock lns e = Inr e' \<Longrightarrow> e \<le> e'"
proof (induction lns e rule: findEndblock.induct)
  case (1 lns e)
  show ?case
    using "1.prems" "1.IH"
    by (subst (asm) findEndblock.simps)
       (fastforce split: if_splits sum.splits option.splits directive.splits)
qed

lemma scanStep_increases:
  "scanStep p lns i bs reg = Inr (i', bs', reg') \<Longrightarrow> i < i'"
  unfolding scanStep_def
  by (auto simp: Let_def
           split: sum.splits option.splits directive.splits if_splits prod.splits
           dest!: parseTemplateContent_nextLine findEndblock_ge)

text \<open>The \<open>while (i < lines.length)\<close> loop of \<open>parseFile\<close>.\<close>

function scanLoop ::
  "string \<Rightarrow> string list \<Rightarrow> nat \<Rightarrow> blockData list \<Rightarrow> registry
   \<Rightarrow> scan_error + (blockData list \<times> registry)" where
  "scanLoop filePath lns i bs reg =
     (if i < length lns then
        (case scanStep filePath lns i bs reg of
           Inl e \<Rightarrow> Inl e
         | Inr (i', bs', reg') \<Rightarrow> scanLoop filePath lns i' bs' reg')
      else Inr (bs, reg))"
  by pat_completeness auto

termination scanLoop
  by (relation "measure (\<lambda>(filePath, lns, i, bs, reg). length lns - i)")
     (auto dest: scanStep_increases)

declare scanLoop.simps [simp del]

text \<open>
  \<open>content.split(/\r?\n/)\<close>: a line ends at LF or at CR LF; a CR that is not followed
  by LF stays in its line. \<open>newLines.join('\n')\<close> is its counterpart.
\<close>

fun split_lines :: "string \<Rightarrow> string list" where
  "split_lines [] = [[]]"
| "split_lines [c] = (if c = CHR 0x0A then [[], []] else [[c]])"
| "split_lines (c # d # cs) =
     (if c = CHR 0x0A then [] # split_lines (d # cs)
      else if c = CHR 0x0D \<and> d = CHR 0x0A then [] # split_lines cs
      else (case split_lines (d # cs) of
              [] \<Rightarrow> [[c]]
            | l # ls \<Rightarrow> (c # l) # ls))"

fun join_lines :: "string list \<Rightarrow> string" where
  "join_lines [] = []"
| "join_lines [l] = l"
| "join_lines (l # m # ls) = l @ CHR 0x0A # join_lines (m # ls)"

text \<open>
  \<open>parseFile\<close> on the text read from \<open>filePath\<close>: the file record and the updated
  registry.
\<close>

definition parseFile ::
  "registry \<Rightarrow> string \<Rightarrow> string \<Rightarrow> scan_error + (fileData \<times> registry)" where
  "parseFile reg filePath text =
     (let lns = split_lines text
      in case scanLoop filePath lns 0 [] reg of
           Inl e \<Rightarrow> Inl e
         | Inr (bs, reg') \<Rightarrow> Inr (\<lparr>f_lines = lns, f_blocks = bs\<rparr>, reg'))"

text \<open>
  \<open>this.files.set(filePath, fileData)\<close>: a Map keeps the position of a key that is set
  again.
\<close>

fun filesSet :: "(string \<times> fileData) list \<Rightarrow> string \<Rightarrow> fileData \<Rightarrow> (string \<times> fileData) list" where
  "filesSet [] k v = [(k, v)]"
| "filesSet ((k', v') # m) k v = (if k' = k then (k, v) # m else (k', v') # filesSet m k v)"

text \<open>
  \<open>parseFiles\<close>, pass 1, over the files in the order of discovery, each given as its
  path and its text.
\<close>

fun parseFiles ::
  "(string \<times> fileData) list \<Rightarrow> registry \<Rightarrow> (string \<times> string) list
   \<Rightarrow> scan_error + ((string \<times> fileData) list \<times> registry)" where
  "parseFiles files reg [] = Inr (files, reg)"
| "parseFiles files reg ((filePath, text) # rest) =
     (case parseFile reg filePath text of
        Inl e \<Rightarrow> Inl e
      | Inr (fd, reg') \<Rightarrow> parseFiles (filesSet files filePath fd) reg' rest)"

section \<open>Block resolver\<close>

text \<open>
  The line emitted for one item of the resolved content. Every item of the registry is
  a record, so the branch for legacy strings does not arise; an item without
  \<open>finalContent\<close> takes the fallback branch, where its missing \<open>content\<close> field reads
  as the empty string and an empty line is pushed.
\<close>

definition renderItem :: "string \<Rightarrow> item \<Rightarrow> string" where
  "renderItem baseIndent it =
     (case finalContent it of
        Some fc \<Rightarrow> if isEmpty it then [] else baseIndent @ fc
      | None \<Rightarrow> [])"

text \<open>
  \<open>generateBlockContent\<close>: the last replacement or else the default, then all appends,
  each item rendered with the indentation found at the target
  (\<open>existingIndent || ''\<close> is \<open>existingIndent\<close>).
\<close>

definition generateBlockContent :: "registry \<Rightarrow> string \<Rightarrow> string \<Rightarrow> string list" where
  "generateBlockContent reg bid existingIndent =
     (case reg bid of
        None \<Rightarrow> []
      | Some blockInfo \<Rightarrow>
          let result0 =
                (if length (replaces blockInfo) > 0
                 then e_content (replaces blockInfo ! (length (replaces blockInfo) - 1))
                 else (case default blockInfo of
                         Some d \<Rightarrow> e_content d
                       | None \<Rightarrow> []));
              result = foldl (\<lambda>acc a. acc @ e_content a) result0 (appends blockInfo)
          in map (renderItem existingIndent) result)"

section \<open>Output patcher\<close>

text \<open>
  The lines \<open>newLines[j]\<close> for \<open>contentStart \<le> j < contentEnd\<close>, which both \<open>for\<close>
  loops of \<open>generateOutput\<close> walk. The scanner records \<open>endLine \<le> lines.length\<close> and
  the splices of later blocks leave the lines before them in place, so every such
  index is in range.
\<close>

definition spanLines :: "blockData \<Rightarrow> string list \<Rightarrow> string list" where
  "spanLines b newLines =
     take (b_endLine b - (b_startLine b + 1)) (drop (b_startLine b + 1) newLines)"

text \<open>
  The indentation of the first line of the span that is neither blank nor a comment,
  or the empty string.
\<close>

definition findExistingIndent :: "string list \<Rightarrow> string" where
  "findExistingIndent span =
     (case find (\<lambda>line. trim line \<noteq> [] \<and> \<not> startsWith (trim line) ''//'') span of
        Some line \<Rightarrow> takeWhile is_space line
      | None \<Rightarrow> [])"

text \<open>
  The test of the preservation loop: a comment line at least as indented as the block,
  with text that does not start with \<open>@\<close>. The loop keeps lines while the test holds
  and breaks at the first line that fails it.
\<close>

definition isPreserved :: "string \<Rightarrow> string \<Rightarrow> bool" where
  "isPreserved blockIndent line =
     (startsWith (trim line) ''//'' \<and>
      (case getCommentIndent line of
         None \<Rightarrow> False
       | Some lineIndent \<Rightarrow>
           length lineIndent \<ge> length blockIndent \<and>
           (case contentMatch line of
              None \<Rightarrow> False
            | Some (li, spaces, text) \<Rightarrow>
                trim text \<noteq> [] \<and> \<not> startsWith (trim text) ''@'')))"

text \<open>
  The body of the reverse loop over a file's blocks: the splice
  \<open>newLines.splice(contentStart, contentEnd - contentStart, ...replacementLines)\<close>.
\<close>

definition patchBlock :: "registry \<Rightarrow> blockData \<Rightarrow> string list \<Rightarrow> string list" where
  "patchBlock reg b newLines =
     (if b_type b = block_default \<or> b_type b = block then
        let contentStart = b_startLine b + 1;
            contentEnd = b_endLine b;
            existingIndent = findExistingIndent (spanLines b newLines);
            generatedContent = generateBlockContent reg (b_blockId b) existingIndent;
            preservedLines =
              (if b_type b = block_default
               then takeWhile (isPreserved (b_indent b)) (spanLines b newLines)
               else []);
            replacementLines = preservedLines @ generatedContent
        in take contentStart newLines @ replacementLines
           @ drop (contentStart + (contentEnd - contentStart)) newLines
      else newLines)"

text \<open>
  One file of \<open>generateOutput\<close>: the blocks are patched from the last to the first, and
  the file is written (\<open>Some\<close> of the new text) when \<open>modified\<close> was set.
\<close>

definition patchFile :: "registry \<Rightarrow> fileData \<Rightarrow> string list" where
  "patchFile reg fd = foldr (patchBlock reg) (f_blocks fd) (f_lines fd)"

definition isModified :: "fileData \<Rightarrow> bool" where
  "isModified fd \<longleftrightarrow> list_ex (\<lambda>b. b_type b = block_default \<or> b_type b = block) (f_blocks fd)"

definition outputFile :: "registry \<Rightarrow> fileData \<Rightarrow> string option" where
  "outputFile reg fd =
     (if isModified fd then Some (join_lines (patchFile reg fd)) else None)"

text \<open>\<open>generateOutput\<close>: the list of the files written, each with its new text.\<close>

definition generateOutput :: "registry \<Rightarrow> (string \<times> fileData) list \<Rightarrow> (string \<times> string) list" where
  "generateOutput reg files =
     concat (map (\<lambda>(filePath, fd).
                    case outputFile reg fd of
                      None \<Rightarrow> []
                    | Some newContent \<Rightarrow> [(filePath, newContent)]) files)"

text \<open>
  \<open>process\<close>, on the files the glob found with the text of each: a run that throws
  exits with status 1 before pass 2 and writes nothing; otherwise the result is the
  list of writes.
\<close>

definition process :: "(string \<times> string) list \<Rightarrow> scan_error + (string \<times> string) list" where
  "process filePaths =
     (if length filePaths = 0 then Inr []
      else
        (case parseFiles [] Map.empty filePaths of
           Inl e \<Rightarrow> Inl e
         | Inr (files, reg) \<Rightarrow> Inr (generateOutput reg files)))"

text \<open>The file system after a run: the text of each file, overwritten where written.\<close>

definition applyWrites :: "(string \<times> string) list \<Rightarrow> (string \<times> string) list \<Rightarrow> (string \<times> string) list" where
  "applyWrites writes filePaths =
     map (\<lambda>(filePath, text).
            case map_of writes filePath of
              Some newContent \<Rightarrow> (filePath, newContent)
            | None \<Rightarrow> (filePath, text)) filePaths"

section \<open>Notions used in the statements\<close>

text \<open>
  A malformed directive: a line on which \<open>parseTemplateLine\<close> throws. By lemma
  \<open>malformedDirective_iff\<close> these are the lines that match the directive pattern with
  one of the four block commands and a number of arguments other than one.
\<close>

definition malformedDirective :: "string \<Rightarrow> bool" where
  "malformedDirective line \<longleftrightarrow> isl (parseTemplateLine line)"

text \<open>No line from index \<open>i\<close> on is a malformed directive.\<close>

definition wfFrom :: "string list \<Rightarrow> nat \<Rightarrow> bool" where
  "wfFrom lns i \<longleftrightarrow> list_all (\<lambda>l. \<not> malformedDirective l) (drop i lns)"

text \<open>The template indentation after a consumed line.\<close>

definition nextIndent :: "string option \<Rightarrow> item option \<Rightarrow> string option" where
  "nextIndent t x =
     (case x of None \<Rightarrow> t
      | Some it \<Rightarrow> if t = None \<and> trim (contentText it) \<noteq> [] then Some (commentSpaces it) else t)"

text \<open>The occurrence that the scanner records for an opening directive at line \<open>i\<close>.\<close>

definition recordBlock ::
  "nat \<Rightarrow> role \<Rightarrow> string \<Rightarrow> string \<Rightarrow> nat \<Rightarrow> item list \<Rightarrow> blockData" where
  "recordBlock i ty bid base endLn content =
     \<lparr>b_type = ty, b_blockId = bid, b_startLine = i, b_endLine = endLn, b_indent = base,
      b_content = content\<rparr>"

text \<open>
  Occurrences in strictly increasing order with pairwise disjoint spans: each one
  starts after the end of all the ones before it.
\<close>

definition spansDisjoint :: "blockData list \<Rightarrow> bool" where
  "spansDisjoint bs \<longleftrightarrow>
     sorted_wrt (\<lambda>a b. b_startLine a < b_startLine b \<and> b_endLine a < b_startLine b) bs"

text \<open>
  An occurrence of a rewrite target whose closing line lies after its opening line and
  at most at the end of a file of \<open>n\<close> lines.
\<close>

definition spanWithin :: "nat \<Rightarrow> blockData \<Rightarrow> bool" where
  "spanWithin n b \<longleftrightarrow>
     (b_type b = block_default \<or> b_type b = block)
     \<and> b_startLine b < b_endLine b \<and> b_endLine b \<le> n"

text \<open>The invariant of the scanning loop at index \<open>i\<close>.\<close>

definition scanInv :: "string list \<Rightarrow> nat \<Rightarrow> blockData list \<Rightarrow> bool" where
  "scanInv lns i bs \<longleftrightarrow>
     spansDisjoint bs \<and> (\<forall>b\<in>set bs. spanWithin (length lns) b \<and> b_endLine b < i)"

text \<open>
  The scanning loop with a bound on the number of iterations: \<open>None\<close> when the bound is
  reached before the loop ends.
\<close>

fun scanFuel ::
  "nat \<Rightarrow> string \<Rightarrow> string list \<Rightarrow> nat \<Rightarrow> blockData list \<Rightarrow> registry
   \<Rightarrow> (scan_error + (blockData list \<times> registry)) option" where
  "scanFuel 0 filePath lns i bs reg =
     (if i < length lns then None else Some (Inr (bs, reg)))"
| "scanFuel (Suc k) filePath lns i bs reg =
     (if i < length lns then
        (case scanStep filePath lns i bs reg of
           Inl e \<Rightarrow> Some (Inl e)
         | Inr (i', bs', reg') \<Rightarrow> scanFuel k filePath lns i' bs' reg')
      else Some (Inr (bs, reg)))"

text \<open>
  The lines that replace the inside of a block's span, computed from the lines of the
  span: the preserved template comments of a \<open>block_default\<close>, then the generated
  content.
\<close>

definition replacementLines :: "registry \<Rightarrow> blockData \<Rightarrow> string list \<Rightarrow> string list" where
  "replacementLines reg b lns =
     (if b_type b = block_default
      then takeWhile (isPreserved (b_indent b)) (spanLines b lns)
      else [])
     @ generateBlockContent reg (b_blockId b) (findExistingIndent (spanLines b lns))"

text \<open>
  The file from position \<open>pos\<close> on with the inside of every span replaced, in one pass
  from top to bottom: the lines up to and including each opening directive are kept,
  then comes the replacement, and the text resumes at the closing line.
\<close>

fun spliceAll :: "registry \<Rightarrow> string list \<Rightarrow> nat \<Rightarrow> blockData list \<Rightarrow> string list" where
  "spliceAll reg lns pos [] = drop pos lns"
| "spliceAll reg lns pos (b # bs) =
     take (b_startLine b + 1 - pos) (drop pos lns)
     @ replacementLines reg b lns
     @ spliceAll reg lns (b_endLine b) bs"

text \<open>Two example inputs.\<close>

definition exampleFile :: string where
  "exampleFile =
     join_lines [''// @block_default X'', ''//   a'', ''a'', ''// @endblock'', ''x'',
                 ''// @block Y'', ''// @endblock'', ''// @block_append Y'', ''//  c'']"

definition exampleLines :: "string list" where
  "exampleLines = [''// @block_append X'', ''//  a'', ''x'', ''// @block Y'']"

definition exampleBad :: "(string \<times> string) list" where
  "exampleBad = [(''a.c'', join_lines [''// @block_default X'', ''// @endblock'']),
                 (''b.c'', join_lines [''int x;'', ''// @block_replace X Y'', ''//   1''])]"

definition exampleGood :: "(string \<times> string) list" where
  "exampleGood = [(''a.c'', join_lines [''// @block_default X'', ''// @endblock'']),
                  (''b.c'', join_lines [''int x;'', ''// @block_replace X'', ''//   1''])]"

definition exampleOpen :: string where
  "exampleOpen = join_lines [''int x;'', ''// @block_default X'', ''//   a'', ''old'', ''// @block_append X'', ''//   b'']"

text \<open>
  The width of the white space that follows \<open>//\<close> on a comment line, the
  comment-indent-width in the words of the specification.
\<close>

definition commentIndentWidth :: "string \<Rightarrow> nat" where
  "commentIndentWidth line =
     (case contentMatch line of
        Some (lineIndent, spaces, text) \<Rightarrow> length spaces
      | None \<Rightarrow> 0)"

text \<open>Example inputs for the output patcher.\<close>

definition exampleMarker :: string where
  "exampleMarker = join_lines [''// @block X'', ''// @endblock'']"

definition exampleBlank :: string where
  "exampleBlank =
     join_lines [''// @block_default X'', ''//   a'', ''//'', ''//   b'', ''// @endblock'']"

text \<open>A text in which no line ends in CR LF.\<close>

fun noCRLF :: "string \<Rightarrow> bool" where
  "noCRLF [] = True"
| "noCRLF [c] = True"
| "noCRLF (c # d # cs) = (\<not> (c = CHR 0x0D \<and> d = CHR 0x0A) \<and> noCRLF (d # cs))"

text \<open>A file with CR LF line ends.\<close>

definition exampleCRLF :: string where
  "exampleCRLF =
     ''int x;'' @ [CHR 0x0D, CHR 0x0A] @ ''// @block X'' @ [CHR 0x0D, CHR 0x0A] @ ''// @endblock''"



text \<open>
  What the scanner records for an occurrence, read against the lines of the file: the
  start line is the opening directive with the occurrence's role and identifier, the
  indent is that line's comment prefix, the end line is where the search for
  \<open>@endblock\<close> from the next line stopped, and the content is the template body
  extracted after a \<open>block_default\<close> (none for \<open>block\<close>).
\<close>

definition recordedAt :: "string list \<Rightarrow> blockData \<Rightarrow> bool" where
  "recordedAt lns b \<longleftrightarrow>
     b_startLine b < length lns
     \<and> parseTemplateLine (lns ! b_startLine b) = Inr (Some (Block (b_type b) (b_blockId b)))
     \<and> (b_type b = block_default \<or> b_type b = block)
     \<and> getCommentIndent (lns ! b_startLine b) = Some (b_indent b)
     \<and> findEndblock lns (b_startLine b + 1) = Inr (b_endLine b)
     \<and> (if b_type b = block_default
         then map_sum id fst (parseTemplateContent lns (b_startLine b + 1) (b_indent b))
              = Inr (b_content b)
         else b_content b = [])"


section \<open>Properties of the block resolver\<close>

lemma foldl_appends:
  "foldl (\<lambda>acc a. acc @ e_content a) r as = r @ concat (map e_content as)"
  by (induction as arbitrary: r) simp_all

text \<open>
  Claim C1 (block resolution precedence). For an identifier whose registry entry holds
  the default \<open>d\<close>, the replace occurrences \<open>rs\<close> and the append occurrences \<open>as\<close>, in
  discovery order, \<open>generateBlockContent\<close> returns the content of the last replace
  occurrence if there is one, else the content of the default if there is one, else
  nothing, followed by the contents of all append occurrences in order; each content
  line is rendered with the indentation of the target. For \<open>rs = [R1, R2]\<close> and
  \<open>as = [A1, A2]\<close> this is \<open>R2 @ A1 @ A2\<close>, with no replaces \<open>D @ A1 @ A2\<close>, with
  neither \<open>A1 @ A2\<close>. An identifier without a registry entry resolves to the empty list.
\<close>

theorem C1_precedence:
  "(reg bid = Some \<lparr>default = d, replaces = rs, appends = as\<rparr> \<longrightarrow>
      generateBlockContent reg bid ind =
        map (renderItem ind)
          ((if rs \<noteq> [] then e_content (last rs)
            else case d of Some D \<Rightarrow> e_content D | None \<Rightarrow> [])
           @ concat (map e_content as)))
   \<and> (reg bid = None \<longrightarrow> generateBlockContent reg bid ind = [])"
  by (cases d) (auto simp: generateBlockContent_def foldl_appends last_conv_nth)

theorem C1_precedence_witness:
  "(let it = (\<lambda>t. \<lparr>indent = [], commentSpaces = ''   '', contentText = t,
                     originalLine = ''//   '' @ t, isEmpty = False,
                     finalContent = Some t\<rparr>);
        occ = (\<lambda>t. \<lparr>e_content = [it t], e_filePath = ''f.c'', e_indent = ''// ''\<rparr>)
    in generateBlockContent
         [''X'' \<mapsto> \<lparr>default = Some (occ ''d''), replaces = [occ ''r1'', occ ''r2''],
                    appends = [occ ''a1'', occ ''a2'']\<rparr>] ''X'' ''  ''
         = [''  r2'', ''  a1'', ''  a2'']
       \<and> generateBlockContent
         [''X'' \<mapsto> \<lparr>default = Some (occ ''d''), replaces = [],
                    appends = [occ ''a1'', occ ''a2'']\<rparr>] ''X'' ''  ''
         = [''  d'', ''  a1'', ''  a2'']
       \<and> generateBlockContent
         [''X'' \<mapsto> \<lparr>default = None, replaces = [],
                    appends = [occ ''a1'', occ ''a2'']\<rparr>] ''X'' ''  ''
         = [''  a1'', ''  a2''])
   \<and> generateBlockContent Map.empty ''X'' ''  '' = []"
proof -
  let ?it = "\<lambda>t. \<lparr>indent = [], commentSpaces = ''   '', contentText = t,
                     originalLine = ''//   '' @ t, isEmpty = False,
                     finalContent = Some t\<rparr>"
  let ?occ = "\<lambda>t. \<lparr>e_content = [?it t], e_filePath = ''f.c'', e_indent = ''// ''\<rparr>"
  let ?as = "[?occ ''a1'', ?occ ''a2'']"
  note a = C1_precedence [of "[''X'' \<mapsto> \<lparr>default = Some (?occ ''d''),
              replaces = [?occ ''r1'', ?occ ''r2''], appends = ?as\<rparr>]" "''X''"
              "Some (?occ ''d'')" "[?occ ''r1'', ?occ ''r2'']" ?as "''  ''"]
  note b = C1_precedence [of "[''X'' \<mapsto> \<lparr>default = Some (?occ ''d''),
              replaces = [], appends = ?as\<rparr>]" "''X''"
              "Some (?occ ''d'')" "[]" ?as "''  ''"]
  note c = C1_precedence [of "[''X'' \<mapsto> \<lparr>default = None,
              replaces = [], appends = ?as\<rparr>]" "''X''" None "[]" ?as "''  ''"]
  note d = C1_precedence [of Map.empty "''X''" None "[]" "[]" "''  ''"]
  show ?thesis using a b c d by (simp add: renderItem_def Let_def)
qed

section \<open>Properties of the scanner\<close>

lemma trim_prefix:
  "dropWhile is_space l = trim l @ rev (takeWhile is_space (rev (dropWhile is_space l)))"
  unfolding trim_def
  by (metis rev_append rev_rev_ident takeWhile_dropWhile_id)

lemma startsWith_append: "startsWith a p \<Longrightarrow> startsWith (a @ b) p"
  unfolding startsWith_def
  by (metis append_eq_conv_conj append.assoc append_take_drop_id)

lemma startsWith_trim_line:
  "startsWith (trim l) p \<Longrightarrow> startsWith (dropWhile is_space l) p"
  using trim_prefix [of l] startsWith_append by metis

lemma directive_match_comment: "directive_match t = Some d \<Longrightarrow> startsWith t ''//''"
  by (simp add: directive_match_def split: if_splits)

lemma parseTemplateLine_comment:
  "parseTemplateLine l = Inr (Some d) \<Longrightarrow> startsWith (trim l) ''//''"
  by (auto simp: parseTemplateLine_def Let_def split: option.splits dest: directive_match_comment)

lemma directive_line_has_indent:
  "parseTemplateLine l = Inr (Some d) \<Longrightarrow> \<exists>b. getCommentIndent l = Some b"
  by (auto simp: getCommentIndent_def Let_def dest!: parseTemplateLine_comment startsWith_trim_line)

lemma wfFrom_iff:
  "wfFrom lns i \<longleftrightarrow> (\<forall>j. i \<le> j \<and> j < length lns \<longrightarrow> \<not> isl (parseTemplateLine (lns ! j)))"
proof
  assume a: "wfFrom lns i"
  show "\<forall>j. i \<le> j \<and> j < length lns \<longrightarrow> \<not> isl (parseTemplateLine (lns ! j))"
  proof (intro allI impI)
    fix j assume j: "i \<le> j \<and> j < length lns"
    then have "lns ! j = drop i lns ! (j - i)" "j - i < length (drop i lns)" by auto
    then have "lns ! j \<in> set (drop i lns)" by (metis nth_mem)
    then show "\<not> isl (parseTemplateLine (lns ! j))"
      using a by (simp add: wfFrom_def malformedDirective_def list_all_iff)
  qed
next
  assume a: "\<forall>j. i \<le> j \<and> j < length lns \<longrightarrow> \<not> isl (parseTemplateLine (lns ! j))"
  have "\<not> isl (parseTemplateLine l)" if "l \<in> set (drop i lns)" for l
  proof -
    from that obtain k where "k < length (drop i lns)" "l = drop i lns ! k"
      by (metis in_set_conv_nth)
    then have "l = lns ! (i + k)" "i + k < length lns" by auto
    then show ?thesis using a by simp
  qed
  then show "wfFrom lns i" by (simp add: wfFrom_def malformedDirective_def list_all_iff)
qed

lemma wfFrom_mono: "wfFrom lns i \<Longrightarrow> i \<le> k \<Longrightarrow> wfFrom lns k"
  by (auto simp: wfFrom_iff)

lemma wfFrom_here: "wfFrom lns i \<Longrightarrow> i < length lns \<Longrightarrow> \<exists>d. parseTemplateLine (lns ! i) = Inr d"
  by (cases "parseTemplateLine (lns ! i)") (auto simp: wfFrom_iff)

lemma findEndblock_end: "\<not> e < length lns \<Longrightarrow> findEndblock lns e = Inr e"
  by (simp add: findEndblock.simps)

lemma findEndblock_err:
  "e < length lns \<Longrightarrow> parseTemplateLine (lns ! e) = Inl x \<Longrightarrow> findEndblock lns e = Inl x"
  by (simp add: findEndblock.simps)

lemma findEndblock_found:
  "e < length lns \<Longrightarrow> parseTemplateLine (lns ! e) = Inr (Some Endblock) \<Longrightarrow> findEndblock lns e = Inr e"
  by (simp add: findEndblock.simps)

lemma findEndblock_next:
  "e < length lns \<Longrightarrow> parseTemplateLine (lns ! e) = Inr d \<Longrightarrow> d \<noteq> Some Endblock
   \<Longrightarrow> findEndblock lns e = findEndblock lns (e + 1)"
  by (subst findEndblock.simps) (simp split: option.splits directive.splits)

lemma findEndblock_cases:
  obtains (stop) "\<not> e < length lns" "findEndblock lns e = Inr e"
  | (err) x where "e < length lns" "parseTemplateLine (lns ! e) = Inl x" "findEndblock lns e = Inl x"
  | (found) "e < length lns" "parseTemplateLine (lns ! e) = Inr (Some Endblock)" "findEndblock lns e = Inr e"
  | (step) d where "e < length lns" "parseTemplateLine (lns ! e) = Inr d" "d \<noteq> Some Endblock"
       "findEndblock lns e = findEndblock lns (e + 1)"
proof (cases "e < length lns")
  case False
  then show ?thesis using stop findEndblock_end by blast
next
  case True
  show ?thesis
  proof (cases "parseTemplateLine (lns ! e)")
    case (Inl x)
    then show ?thesis using True err findEndblock_err by blast
  next
    case (Inr d)
    then show ?thesis using True found step findEndblock_found findEndblock_next
      by (cases "d = Some Endblock") blast+
  qed
qed

lemma findEndblock_error:
  "findEndblock lns e = Inl err \<Longrightarrow> \<exists>j\<ge>e. j < length lns \<and> parseTemplateLine (lns ! j) = Inl err"
proof (induction "length lns - e" arbitrary: e rule: less_induct)
  case less
  show ?case
  proof (cases rule: findEndblock_cases [of e lns])
    case stop
    then show ?thesis using less.prems by simp
  next
    case (err x)
    then show ?thesis using less.prems by auto
  next
    case found
    then show ?thesis using less.prems by simp
  next
    case (step d)
    then have "\<exists>j\<ge>e + 1. j < length lns \<and> parseTemplateLine (lns ! j) = Inl err"
      using less.hyps [of "e + 1"] less.prems by simp
    then obtain j where "e + 1 \<le> j" "j < length lns" "parseTemplateLine (lns ! j) = Inl err"
      by blast
    then have "e \<le> j \<and> j < length lns \<and> parseTemplateLine (lns ! j) = Inl err" by simp
    then show ?thesis by blast
  qed
qed

lemma findEndblock_props:
  "findEndblock lns e = Inr e' \<Longrightarrow> e \<le> length lns \<Longrightarrow>
     e \<le> e' \<and> e' \<le> length lns
     \<and> (e' < length lns \<longrightarrow> parseTemplateLine (lns ! e') = Inr (Some Endblock))
     \<and> (\<forall>j. e \<le> j \<and> j < e' \<longrightarrow>
            (\<exists>d. parseTemplateLine (lns ! j) = Inr d \<and> d \<noteq> Some Endblock))"
proof (induction "length lns - e" arbitrary: e rule: less_induct)
  case less
  show ?case
  proof (cases rule: findEndblock_cases [of e lns])
    case stop
    then show ?thesis using less.prems by auto
  next
    case (err x)
    then show ?thesis using less.prems by simp
  next
    case found
    then show ?thesis using less.prems by auto
  next
    case (step d)
    then have ih: "e + 1 \<le> e' \<and> e' \<le> length lns
     \<and> (e' < length lns \<longrightarrow> parseTemplateLine (lns ! e') = Inr (Some Endblock))
     \<and> (\<forall>j. e + 1 \<le> j \<and> j < e' \<longrightarrow>
            (\<exists>d. parseTemplateLine (lns ! j) = Inr d \<and> d \<noteq> Some Endblock))"
      using less.hyps [of "e + 1"] less.prems by simp
    have "\<exists>d. parseTemplateLine (lns ! j) = Inr d \<and> d \<noteq> Some Endblock"
      if "e \<le> j" "j < e'" for j
    proof (cases "j = e")
      case True
      then show ?thesis using step by simp
    next
      case False
      then show ?thesis using ih that by auto
    qed
    then show ?thesis using ih by auto
  qed
qed

lemma findEndblock_total:
  "wfFrom lns e \<Longrightarrow> \<exists>e'. findEndblock lns e = Inr e'"
proof (induction "length lns - e" arbitrary: e rule: less_induct)
  case less
  show ?case
  proof (cases rule: findEndblock_cases [of e lns])
    case stop
    then show ?thesis by simp
  next
    case (err x)
    then show ?thesis using less.prems by (auto simp: wfFrom_iff)
  next
    case found
    then show ?thesis by simp
  next
    case (step d)
    have "wfFrom lns (e + 1)" using less.prems wfFrom_mono by simp
    then show ?thesis using less.hyps [of "e + 1"] step by simp
  qed
qed

lemma contentLineStep_Throw:
  "contentLineStep b l = Throw x \<Longrightarrow> parseTemplateLine l = Inl x"
  by (auto simp: contentLineStep_def Let_def
           split: if_splits sum.splits option.splits prod.splits)

lemma contentLineStep_Consume:
  "contentLineStep b l = Consume x \<Longrightarrow> parseTemplateLine l = Inr None"
  by (auto simp: contentLineStep_def Let_def
           split: if_splits sum.splits option.splits prod.splits)

lemma contentLineStep_wf:
  "parseTemplateLine l = Inr d \<Longrightarrow> contentLineStep b l \<noteq> Throw x"
  by (auto dest: contentLineStep_Throw)

lemma contentLineStep_directive:
  "parseTemplateLine l = Inr (Some d) \<Longrightarrow> contentLineStep b l = Break"
  by (cases "contentLineStep b l")
     (auto dest: contentLineStep_Throw contentLineStep_Consume)

lemma ptc_loop_cases:
  obtains (stop) "\<not> i < length lns" "ptc_loop lns b i c t = Inr (c, i, t)"
  | (err) x where "i < length lns" "contentLineStep b (lns ! i) = Throw x"
      "ptc_loop lns b i c t = Inl x"
  | (brk) "i < length lns" "contentLineStep b (lns ! i) = Break"
      "ptc_loop lns b i c t = Inr (c, i, t)"
  | (step) x where "i < length lns" "contentLineStep b (lns ! i) = Consume x"
      "ptc_loop lns b i c t
       = ptc_loop lns b (i + 1) (c @ (case x of None \<Rightarrow> [] | Some it \<Rightarrow> [it])) (nextIndent t x)"
proof (cases "i < length lns")
  case False
  have "ptc_loop lns b i c t = Inr (c, i, t)"
    using False by (subst ptc_loop.simps) simp
  then show ?thesis using False stop by blast
next
  case True
  show ?thesis
  proof (cases "contentLineStep b (lns ! i)")
    case Break
    have "ptc_loop lns b i c t = Inr (c, i, t)"
      using True Break by (subst ptc_loop.simps) simp
    then show ?thesis using True Break brk by blast
  next
    case (Throw x)
    have "ptc_loop lns b i c t = Inl x"
      using True Throw by (subst ptc_loop.simps) simp
    then show ?thesis using True Throw err by blast
  next
    case (Consume x)
    have "ptc_loop lns b i c t
       = ptc_loop lns b (i + 1) (c @ (case x of None \<Rightarrow> [] | Some it \<Rightarrow> [it])) (nextIndent t x)"
      using True Consume by (subst ptc_loop.simps) (cases x; simp add: nextIndent_def)
    then show ?thesis using True Consume step by blast
  qed
qed

lemma ptc_loop_error:
  "ptc_loop lns b i c t = Inl err \<Longrightarrow> \<exists>j\<ge>i. j < length lns \<and> parseTemplateLine (lns ! j) = Inl err"
proof (induction "length lns - i" arbitrary: i c t rule: less_induct)
  case less
  show ?case
  proof (cases rule: ptc_loop_cases [of i lns b c t])
    case stop
    then show ?thesis using less.prems by simp
  next
    case (err x)
    then have "parseTemplateLine (lns ! i) = Inl err"
      using less.prems contentLineStep_Throw by auto
    then show ?thesis using err by auto
  next
    case brk
    then show ?thesis using less.prems by simp
  next
    case (step x)
    then have "\<exists>j\<ge>i + 1. j < length lns \<and> parseTemplateLine (lns ! j) = Inl err"
      using less.hyps [of "i + 1"] less.prems by simp
    then obtain j where "i + 1 \<le> j" "j < length lns" "parseTemplateLine (lns ! j) = Inl err"
      by blast
    then have "i \<le> j \<and> j < length lns \<and> parseTemplateLine (lns ! j) = Inl err" by simp
    then show ?thesis by blast
  qed
qed

lemma ptc_loop_total:
  "wfFrom lns i \<Longrightarrow> \<exists>r. ptc_loop lns b i c t = Inr r"
proof (induction "length lns - i" arbitrary: i c t rule: less_induct)
  case less
  show ?case
  proof (cases rule: ptc_loop_cases [of i lns b c t])
    case stop
    then show ?thesis by simp
  next
    case (err x)
    then have "parseTemplateLine (lns ! i) = Inl x" using contentLineStep_Throw by blast
    then show ?thesis using less.prems err by (auto simp: wfFrom_iff)
  next
    case brk
    then show ?thesis by simp
  next
    case (step x)
    have "wfFrom lns (i + 1)" using less.prems wfFrom_mono by simp
    then show ?thesis using less.hyps [of "i + 1"] step by simp
  qed
qed

lemma ptc_loop_props:
  "ptc_loop lns b i c t = Inr (c', n, t') \<Longrightarrow> i \<le> length lns \<Longrightarrow>
     i \<le> n \<and> n \<le> length lns
     \<and> (n < length lns \<longrightarrow> contentLineStep b (lns ! n) = Break)
     \<and> (\<forall>j. i \<le> j \<and> j < n \<longrightarrow> parseTemplateLine (lns ! j) = Inr None)"
proof (induction "length lns - i" arbitrary: i c t rule: less_induct)
  case less
  show ?case
  proof (cases rule: ptc_loop_cases [of i lns b c t])
    case stop
    then show ?thesis using less.prems by auto
  next
    case (err x)
    then show ?thesis using less.prems by simp
  next
    case brk
    then show ?thesis using less.prems by auto
  next
    case (step x)
    then have ih: "i + 1 \<le> n \<and> n \<le> length lns
     \<and> (n < length lns \<longrightarrow> contentLineStep b (lns ! n) = Break)
     \<and> (\<forall>j. i + 1 \<le> j \<and> j < n \<longrightarrow> parseTemplateLine (lns ! j) = Inr None)"
      using less.hyps [of "i + 1"] less.prems by simp
    have "parseTemplateLine (lns ! j) = Inr None" if "i \<le> j" "j < n" for j
    proof (cases "j = i")
      case True
      then show ?thesis using step contentLineStep_Consume by blast
    next
      case False
      then show ?thesis using ih that by auto
    qed
    then show ?thesis using ih by auto
  qed
qed

lemma parseTemplateContent_error:
  "parseTemplateContent lns s b = Inl err
   \<Longrightarrow> \<exists>j\<ge>s. j < length lns \<and> parseTemplateLine (lns ! j) = Inl err"
  by (auto simp: parseTemplateContent_def split: sum.splits prod.splits
           dest: ptc_loop_error)

lemma parseTemplateContent_total:
  "wfFrom lns s \<Longrightarrow> \<exists>r. parseTemplateContent lns s b = Inr r"
  using ptc_loop_total [of lns s b "[]" None]
  by (auto simp: parseTemplateContent_def split: sum.splits prod.splits)

lemma parseTemplateContent_props:
  "parseTemplateContent lns s b = Inr (c, n, t) \<Longrightarrow> s \<le> length lns \<Longrightarrow>
     s \<le> n \<and> n \<le> length lns
     \<and> (n < length lns \<longrightarrow> contentLineStep b (lns ! n) = Break)
     \<and> (\<forall>j. s \<le> j \<and> j < n \<longrightarrow> parseTemplateLine (lns ! j) = Inr None)"
proof -
  assume a: "parseTemplateContent lns s b = Inr (c, n, t)" and s: "s \<le> length lns"
  from a obtain c0 where "ptc_loop lns b s [] None = Inr (c0, n, t)"
    by (auto simp: parseTemplateContent_def split: sum.splits prod.splits)
  then show ?thesis using ptc_loop_props s by blast
qed

lemma scanStep_throw:
  "parseTemplateLine (lns ! i) = Inl x \<Longrightarrow> scanStep p lns i bs reg = Inl (Thrown x)"
  by (simp add: scanStep_def)

lemma scanStep_plain:
  "parseTemplateLine (lns ! i) = Inr d \<Longrightarrow> (\<And>ty bid. d \<noteq> Some (Block ty bid))
   \<Longrightarrow> scanStep p lns i bs reg = Inr (i + 1, bs, reg)"
  by (simp add: scanStep_def split: option.splits directive.splits)

lemma scanStep_block:
  assumes "parseTemplateLine (lns ! i) = Inr (Some (Block ty bid))"
    and "getCommentIndent (lns ! i) = Some base"
    and "ty = block_default \<or> ty = block"
  shows "scanStep p lns i bs reg =
     (case findEndblock lns (i + 1) of
        Inl e \<Rightarrow> Inl (Thrown e)
      | Inr endLn \<Rightarrow>
          (case (if ty = block_default then parseTemplateContent lns (i + 1) base
                 else Inr ([], i + 1, None)) of
             Inl e \<Rightarrow> Inl (Thrown e)
           | Inr (content, nextLn, ti) \<Rightarrow>
               Inr (endLn + 1, bs @ [recordBlock i ty bid base endLn content],
                    reg(bid \<mapsto>
                      (if ty = block_default
                       then (blockInfoOf reg bid)\<lparr>default :=
                              Some \<lparr>e_content = content, e_filePath = p, e_indent = base\<rparr>\<rparr>
                       else blockInfoOf reg bid)))))"
  using assms by (auto simp: scanStep_def recordBlock_def Let_def split: sum.splits prod.splits)

lemma scanStep_feed:
  assumes "parseTemplateLine (lns ! i) = Inr (Some (Block ty bid))"
    and "getCommentIndent (lns ! i) = Some base"
    and "ty = block_replace \<or> ty = block_append"
  shows "scanStep p lns i bs reg =
     (case parseTemplateContent lns (i + 1) base of
        Inl e \<Rightarrow> Inl (Thrown e)
      | Inr (content, nextLn, ti) \<Rightarrow>
          Inr (nextLn, bs,
               reg(bid \<mapsto>
                 (if ty = block_replace
                  then (blockInfoOf reg bid)\<lparr>replaces := replaces (blockInfoOf reg bid)
                         @ [\<lparr>e_content = content, e_filePath = p, e_indent = base\<rparr>]\<rparr>
                  else (blockInfoOf reg bid)\<lparr>appends := appends (blockInfoOf reg bid)
                         @ [\<lparr>e_content = content, e_filePath = p, e_indent = base\<rparr>]\<rparr>))))"
  using assms by (auto simp: scanStep_def Let_def split: sum.splits prod.splits)

lemma block_role_cases: "(ty = block_default \<or> ty = block) \<or> (ty = block_replace \<or> ty = block_append)"
  by (cases ty) auto

lemma scanStep_cases [consumes 1, case_names throw plain blk feed]:
  assumes "i < length lns"
  obtains
    (throw) x j where "scanStep p lns i bs reg = Inl (Thrown x)" "i \<le> j" "j < length lns"
      "parseTemplateLine (lns ! j) = Inl x"
  | (plain) d where "parseTemplateLine (lns ! i) = Inr d" "\<And>ty bid. d \<noteq> Some (Block ty bid)"
      "scanStep p lns i bs reg = Inr (i + 1, bs, reg)"
  | (blk) ty bid base endLn content reg' where
      "parseTemplateLine (lns ! i) = Inr (Some (Block ty bid))"
      "ty = block_default \<or> ty = block"
      "getCommentIndent (lns ! i) = Some base"
      "findEndblock lns (i + 1) = Inr endLn"
      "if ty = block_default
       then \<exists>n t. parseTemplateContent lns (i + 1) base = Inr (content, n, t)
       else content = []"
      "scanStep p lns i bs reg =
         Inr (endLn + 1,
              bs @ [recordBlock i ty bid base endLn content], reg')"
  | (feed) ty bid base content n t reg' where
      "parseTemplateLine (lns ! i) = Inr (Some (Block ty bid))"
      "ty = block_replace \<or> ty = block_append"
      "getCommentIndent (lns ! i) = Some base"
      "parseTemplateContent lns (i + 1) base = Inr (content, n, t)"
      "scanStep p lns i bs reg = Inr (n, bs, reg')"
proof (cases "parseTemplateLine (lns ! i)")
  case (Inl x)
  then show ?thesis using throw [of x i] scanStep_throw assms by blast
next
  case (Inr d)
  show ?thesis
  proof (cases "\<exists>ty bid. d = Some (Block ty bid)")
    case False
    then show ?thesis using plain [of d] Inr scanStep_plain [OF Inr] by blast
  next
    case True
    then obtain ty bid where d: "d = Some (Block ty bid)" by blast
    then have pl: "parseTemplateLine (lns ! i) = Inr (Some (Block ty bid))" using Inr by simp
    then obtain base where base: "getCommentIndent (lns ! i) = Some base"
      using directive_line_has_indent by blast
    from block_role_cases [of ty] show ?thesis
    proof
      assume ty: "ty = block_default \<or> ty = block"
      note eq = scanStep_block [OF pl base ty, of p bs reg]
      show ?thesis
      proof (cases "findEndblock lns (i + 1)")
        case (Inl x)
        then obtain j where "i + 1 \<le> j" "j < length lns" "parseTemplateLine (lns ! j) = Inl x"
          using findEndblock_error by blast
        moreover have "scanStep p lns i bs reg = Inl (Thrown x)" using eq Inl by simp
        ultimately show ?thesis using throw [of x j] by simp
      next
        case fe: (Inr endLn)
        show ?thesis
        proof (cases "ty = block_default")
          case False
          then have "scanStep p lns i bs reg =
             Inr (endLn + 1, bs @ [recordBlock i ty bid base endLn []],
                  reg(bid \<mapsto> blockInfoOf reg bid))"
            using eq fe by simp
          then show ?thesis using blk [OF pl ty base fe, of "[]"] False by simp
        next
          case True
          show ?thesis
          proof (cases "parseTemplateContent lns (i + 1) base")
            case (Inl x)
            then obtain j where "i + 1 \<le> j" "j < length lns" "parseTemplateLine (lns ! j) = Inl x"
              using parseTemplateContent_error by blast
            moreover have "scanStep p lns i bs reg = Inl (Thrown x)" using eq fe Inl True by simp
            ultimately show ?thesis using throw [of x j] by simp
          next
            case (Inr r)
            obtain content n t where r: "r = (content, n, t)" by (cases r) auto
            have "scanStep p lns i bs reg =
               Inr (endLn + 1, bs @ [recordBlock i ty bid base endLn content],
                    reg(bid \<mapsto> (blockInfoOf reg bid)\<lparr>default :=
                              Some \<lparr>e_content = content, e_filePath = p, e_indent = base\<rparr>\<rparr>))"
              using eq fe Inr r True by simp
            moreover have "if ty = block_default
               then \<exists>n t. parseTemplateContent lns (i + 1) base = Inr (content, n, t)
               else content = []" using True Inr r by simp
            ultimately show ?thesis using blk [OF pl ty base fe, of content] by blast
          qed
        qed
      qed
    next
      assume ty: "ty = block_replace \<or> ty = block_append"
      note eq = scanStep_feed [OF pl base ty, of p bs reg]
      show ?thesis
      proof (cases "parseTemplateContent lns (i + 1) base")
        case (Inl x)
        then obtain j where "i + 1 \<le> j" "j < length lns" "parseTemplateLine (lns ! j) = Inl x"
          using parseTemplateContent_error by blast
        moreover have "scanStep p lns i bs reg = Inl (Thrown x)" using eq Inl by simp
        ultimately show ?thesis using throw [of x j] by simp
      next
        case (Inr r)
        obtain content n t where r: "r = (content, n, t)" by (cases r) auto
        then have "\<exists>reg'. scanStep p lns i bs reg = Inr (n, bs, reg')"
          using eq Inr by simp
        then show ?thesis using feed [OF pl ty base] Inr r by blast
      qed
    qed
  qed
qed

lemma scanLoop_end: "\<not> i < length lns \<Longrightarrow> scanLoop p lns i bs reg = Inr (bs, reg)"
  by (subst scanLoop.simps) simp

lemma scanLoop_err:
  "i < length lns \<Longrightarrow> scanStep p lns i bs reg = Inl e \<Longrightarrow> scanLoop p lns i bs reg = Inl e"
  by (subst scanLoop.simps) simp

lemma scanLoop_step:
  "i < length lns \<Longrightarrow> scanStep p lns i bs reg = Inr (i', bs', reg')
   \<Longrightarrow> scanLoop p lns i bs reg = scanLoop p lns i' bs' reg'"
  by (subst scanLoop.simps) simp

lemma scanLoop_error:
  "scanLoop p lns i bs reg = Inl e \<Longrightarrow>
     \<exists>x j. e = Thrown x \<and> i \<le> j \<and> j < length lns \<and> parseTemplateLine (lns ! j) = Inl x"
proof (induction "length lns - i" arbitrary: i bs reg rule: less_induct)
  case less
  show ?case
  proof (cases "i < length lns")
    case False
    then show ?thesis using less.prems scanLoop_end by simp
  next
    case True
    then show ?thesis
    proof (cases rule: scanStep_cases [of i lns p bs reg])
      case (throw x j)
      then have "e = Thrown x" using less.prems scanLoop_err [OF True] by simp
      then show ?thesis using throw by blast
    next
      case (plain d)
      then have "scanLoop p lns (i + 1) bs reg = Inl e"
        using less.prems scanLoop_step [OF True] by simp
      then obtain x j where "e = Thrown x" "i + 1 \<le> j" "j < length lns"
          "parseTemplateLine (lns ! j) = Inl x"
        using less.hyps [of "i + 1"] True by force
      then have "e = Thrown x \<and> i \<le> j \<and> j < length lns \<and> parseTemplateLine (lns ! j) = Inl x"
        by simp
      then show ?thesis by blast
    next
      case (blk ty bid base endLn content reg')
      let ?bs = "bs @ [recordBlock i ty bid base endLn content]"
      have ge: "i + 1 \<le> endLn" using blk(4) findEndblock_props True by force
      have "scanLoop p lns (endLn + 1) ?bs reg' = Inl e"
        using less.prems scanLoop_step [OF True blk(6)] by simp
      then obtain x j where "e = Thrown x" "endLn + 1 \<le> j" "j < length lns"
          "parseTemplateLine (lns ! j) = Inl x"
        using less.hyps [of "endLn + 1"] True ge by force
      then have "e = Thrown x \<and> i \<le> j \<and> j < length lns \<and> parseTemplateLine (lns ! j) = Inl x"
        using ge by simp
      then show ?thesis by blast
    next
      case (feed ty bid base content n t reg')
      have ge: "i + 1 \<le> n" using feed(4) parseTemplateContent_props True by force
      have "scanLoop p lns n bs reg' = Inl e"
        using less.prems scanLoop_step [OF True feed(5)] by simp
      then obtain x j where "e = Thrown x" "n \<le> j" "j < length lns"
          "parseTemplateLine (lns ! j) = Inl x"
        using less.hyps [of n] True ge by force
      then have "e = Thrown x \<and> i \<le> j \<and> j < length lns \<and> parseTemplateLine (lns ! j) = Inl x"
        using ge by simp
      then show ?thesis by blast
    qed
  qed
qed

lemma scanLoop_total:
  "wfFrom lns i \<Longrightarrow> \<exists>r. scanLoop p lns i bs reg = Inr r"
proof (induction "length lns - i" arbitrary: i bs reg rule: less_induct)
  case less
  show ?case
  proof (cases "i < length lns")
    case False
    then show ?thesis using scanLoop_end by simp
  next
    case True
    then show ?thesis
    proof (cases rule: scanStep_cases [of i lns p bs reg])
      case (throw x j)
      then show ?thesis using less.prems by (auto simp: wfFrom_iff)
    next
      case (plain d)
      have "wfFrom lns (i + 1)" using less.prems wfFrom_mono by simp
      then show ?thesis
        using less.hyps [of "i + 1"] True scanLoop_step [OF True plain(3)] by simp
    next
      case (blk ty bid base endLn content reg')
      have ge: "i + 1 \<le> endLn" using blk(4) findEndblock_props True by force
      then have "wfFrom lns (endLn + 1)" using less.prems wfFrom_mono by simp
      then show ?thesis
        using less.hyps [of "endLn + 1"] True ge scanLoop_step [OF True blk(6)] by simp
    next
      case (feed ty bid base content n t reg')
      have ge: "i + 1 \<le> n" using feed(4) parseTemplateContent_props True by force
      then have "wfFrom lns n" using less.prems wfFrom_mono by simp
      then show ?thesis
        using less.hyps [of n] True ge scanLoop_step [OF True feed(5)] by simp
    qed
  qed
qed

lemma scanLoop_wf:
  "scanLoop p lns i bs reg = Inr r \<Longrightarrow> wfFrom lns i"
proof (induction "length lns - i" arbitrary: i bs reg rule: less_induct)
  case less
  show ?case
  proof (cases "i < length lns")
    case False
    then show ?thesis by (auto simp: wfFrom_iff)
  next
    case True
    then show ?thesis
    proof (cases rule: scanStep_cases [of i lns p bs reg])
      case (throw x j)
      then show ?thesis using less.prems scanLoop_err [OF True] by simp
    next
      case (plain d)
      have "scanLoop p lns (i + 1) bs reg = Inr r"
        using less.prems scanLoop_step [OF True plain(3)] by simp
      then have "wfFrom lns (i + 1)" using less.hyps [of "i + 1"] True by simp
      then show ?thesis using plain(1)
        unfolding wfFrom_iff
        by (metis Suc_eq_plus1 Suc_leI le_neq_implies_less sum.disc(2))
    next
      case (blk ty bid base endLn content reg')
      have fp: "i + 1 \<le> endLn \<and> endLn \<le> length lns
         \<and> (endLn < length lns \<longrightarrow> parseTemplateLine (lns ! endLn) = Inr (Some Endblock))
         \<and> (\<forall>j. i + 1 \<le> j \<and> j < endLn \<longrightarrow>
            (\<exists>d. parseTemplateLine (lns ! j) = Inr d \<and> d \<noteq> Some Endblock))"
        using findEndblock_props [OF blk(4)] True by simp
      have "scanLoop p lns (endLn + 1) (bs @ [recordBlock i ty bid base endLn content]) reg' = Inr r"
        using less.prems scanLoop_step [OF True blk(6)] by simp
      moreover have "length lns - (endLn + 1) < length lns - i" using True fp by linarith
      ultimately have wf: "wfFrom lns (endLn + 1)" using less.hyps [of "endLn + 1"] by blast
      have "\<not> isl (parseTemplateLine (lns ! j))" if ij: "i \<le> j" and jl: "j < length lns" for j
      proof -
        have "j = i \<or> (i + 1 \<le> j \<and> j < endLn) \<or> j = endLn \<or> endLn + 1 \<le> j"
          using ij by linarith
        then consider "j = i" | "i + 1 \<le> j \<and> j < endLn" | "j = endLn" | "endLn + 1 \<le> j"
          by blast
        then show ?thesis
        proof cases
          case 1
          then show ?thesis using blk(1) by simp
        next
          case 2
          then show ?thesis using fp by force
        next
          case 3
          then show ?thesis using fp jl by simp
        next
          case 4
          then show ?thesis using wf jl by (simp add: wfFrom_iff)
        qed
      qed
      then show ?thesis by (simp add: wfFrom_iff)
    next
      case (feed ty bid base content n t reg')
      have pp: "i + 1 \<le> n \<and> n \<le> length lns
         \<and> (\<forall>j. i + 1 \<le> j \<and> j < n \<longrightarrow> parseTemplateLine (lns ! j) = Inr None)"
        using parseTemplateContent_props [OF feed(4)] True by simp
      have "scanLoop p lns n bs reg' = Inr r"
        using less.prems scanLoop_step [OF True feed(5)] by simp
      moreover have "length lns - n < length lns - i" using True pp by linarith
      ultimately have wf: "wfFrom lns n" using less.hyps [of n] by blast
      have "\<not> isl (parseTemplateLine (lns ! j))" if ij: "i \<le> j" and jl: "j < length lns" for j
      proof -
        have "j = i \<or> (i + 1 \<le> j \<and> j < n) \<or> n \<le> j"
          using ij by linarith
        then consider "j = i" | "i + 1 \<le> j \<and> j < n" | "n \<le> j"
          by blast
        then show ?thesis
        proof cases
          case 1
          then show ?thesis using feed(1) by simp
        next
          case 2
          then show ?thesis using pp by simp
        next
          case 3
          then show ?thesis using wf jl by (simp add: wfFrom_iff)
        qed
      qed
      then show ?thesis by (simp add: wfFrom_iff)
    qed
  qed
qed

lemma scanInv_mono: "scanInv lns i bs \<Longrightarrow> i \<le> k \<Longrightarrow> scanInv lns k bs"
  by (auto simp: scanInv_def)

lemma scanInv_snoc:
  assumes "scanInv lns i bs" "i < length lns" "i + 1 \<le> endLn" "endLn \<le> length lns"
    "ty = block_default \<or> ty = block"
  shows "scanInv lns (endLn + 1) (bs @ [recordBlock i ty bid base endLn content])"
  using assms
  by (auto simp: scanInv_def spansDisjoint_def spanWithin_def recordBlock_def
                 sorted_wrt_append)

lemma scanLoop_inv:
  "scanLoop p lns i bs reg = Inr (bs', reg') \<Longrightarrow> scanInv lns i bs
   \<Longrightarrow> spansDisjoint bs' \<and> (\<forall>b\<in>set bs'. spanWithin (length lns) b)"
proof (induction "length lns - i" arbitrary: i bs reg rule: less_induct)
  case less
  show ?case
  proof (cases "i < length lns")
    case False
    then show ?thesis using less.prems scanLoop_end [OF False, of p bs reg]
      by (auto simp: scanInv_def)
  next
    case True
    then show ?thesis
    proof (cases rule: scanStep_cases [of i lns p bs reg])
      case (throw x j)
      then show ?thesis using less.prems scanLoop_err [OF True] by simp
    next
      case (plain d)
      have "scanLoop p lns (i + 1) bs reg = Inr (bs', reg')"
        using less.prems scanLoop_step [OF True plain(3)] by simp
      moreover have "scanInv lns (i + 1) bs" using less.prems scanInv_mono by simp
      moreover have "length lns - (i + 1) < length lns - i" using True by simp
      ultimately show ?thesis using less.hyps [of "i + 1"] by blast
    next
      case (blk ty bid base endLn content rg)
      have fp: "i + 1 \<le> endLn \<and> endLn \<le> length lns"
        using findEndblock_props [OF blk(4)] True by simp
      have "scanLoop p lns (endLn + 1) (bs @ [recordBlock i ty bid base endLn content]) rg
            = Inr (bs', reg')"
        using less.prems scanLoop_step [OF True blk(6)] by simp
      moreover have "scanInv lns (endLn + 1) (bs @ [recordBlock i ty bid base endLn content])"
        using scanInv_snoc less.prems(2) True fp blk(2) by blast
      moreover have "length lns - (endLn + 1) < length lns - i" using True fp by linarith
      ultimately show ?thesis using less.hyps [of "endLn + 1"] by blast
    next
      case (feed ty bid base content n t rg)
      have pp: "i + 1 \<le> n" using parseTemplateContent_props [OF feed(4)] True by simp
      have "scanLoop p lns n bs rg = Inr (bs', reg')"
        using less.prems scanLoop_step [OF True feed(5)] by simp
      moreover have "scanInv lns n bs" using less.prems scanInv_mono pp by simp
      moreover have "length lns - n < length lns - i" using True pp by linarith
      ultimately show ?thesis using less.hyps [of n] by blast
    qed
  qed
qed

lemma scanFuel_enough:
  "length lns - i \<le> k \<Longrightarrow> scanFuel k p lns i bs reg = Some (scanLoop p lns i bs reg)"
proof (induction k arbitrary: i bs reg)
  case 0
  then show ?case using scanLoop_end [of i lns p bs reg] by simp
next
  case (Suc k)
  show ?case
  proof (cases "i < length lns")
    case False
    then show ?thesis using scanLoop_end [of i lns p bs reg] by simp
  next
    case True
    show ?thesis
    proof (cases "scanStep p lns i bs reg")
      case (Inl e)
      then show ?thesis using True scanLoop_err [OF True Inl] by simp
    next
      case (Inr r)
      obtain i' bs' reg' where r: "r = (i', bs', reg')" by (cases r) auto
      have "i < i'" using Inr r scanStep_increases by blast
      then have "length lns - i' \<le> k" using Suc.prems by linarith
      then have "scanFuel k p lns i' bs' reg' = Some (scanLoop p lns i' bs' reg')"
        using Suc.IH by blast
      then show ?thesis using True Inr r scanLoop_step [OF True, of p bs reg i' bs' reg'] by simp
    qed
  qed
qed

lemma scanStep_bounds:
  assumes "i < length lns" "scanStep p lns i bs reg = Inr (i', bs', reg')"
  shows "case parseTemplateLine (lns ! i) of
           Inr (Some (Block ty bid)) \<Rightarrow>
             if ty = block_default \<or> ty = block
             then \<exists>endLn. findEndblock lns (i + 1) = Inr endLn \<and> i' = endLn + 1 \<and> i + 2 \<le> i'
             else \<exists>c t b. getCommentIndent (lns ! i) = Some b
                    \<and> parseTemplateContent lns (i + 1) b = Inr (c, i', t) \<and> i + 1 \<le> i'
         | _ \<Rightarrow> i' = i + 1"
  using assms(1)
proof (cases rule: scanStep_cases [of i lns p bs reg])
  case (throw x j)
  then show ?thesis using assms by simp
next
  case (plain d)
  then show ?thesis using assms by (auto split: option.splits directive.splits)
next
  case (blk ty bid base endLn content rg)
  have "i + 1 \<le> endLn" using findEndblock_props [OF blk(4)] assms(1) by simp
  then show ?thesis using blk assms by auto
next
  case (feed ty bid base content n t rg)
  have "i + 1 \<le> n" using parseTemplateContent_props [OF feed(4)] assms(1) by simp
  then show ?thesis using feed assms by auto
qed

section \<open>Properties of the output patcher and the scanner\<close>

lemma patchBlock_eq:
  "spanWithin n b \<Longrightarrow>
   patchBlock reg b L
   = take (b_startLine b + 1) L @ replacementLines reg b L @ drop (b_endLine b) L"
  by (auto simp: patchBlock_def replacementLines_def spanWithin_def Let_def)

lemma spanLines_cong:
  assumes "take (b_endLine b) L = take (b_endLine b) lns" "b_startLine b < b_endLine b"
  shows "spanLines b L = spanLines b lns"
proof -
  have "spanLines b L = drop (b_startLine b + 1) (take (b_endLine b) L)" for L :: "string list"
    using assms(2) by (simp add: spanLines_def drop_take)
  then show ?thesis using assms(1) by simp
qed

lemma replacementLines_cong:
  assumes "take (b_endLine b) L = take (b_endLine b) lns" "b_startLine b < b_endLine b"
  shows "replacementLines reg b L = replacementLines reg b lns"
  using spanLines_cong [OF assms] by (simp add: replacementLines_def)

lemma patchFile_spliceAll_aux:
  "spansDisjoint bs \<Longrightarrow>
   (\<forall>b\<in>set bs. spanWithin (length lns) b \<and> k \<le> b_startLine b + 1) \<Longrightarrow>
   k \<le> length lns \<Longrightarrow>
   foldr (patchBlock reg) bs lns = take k lns @ spliceAll reg lns k bs"
proof (induction bs arbitrary: k)
  case Nil
  then show ?case by simp
next
  case (Cons b rest)
  let ?s = "b_startLine b" and ?e = "b_endLine b"
  let ?L = "foldr (patchBlock reg) rest lns"
  have sw: "spanWithin (length lns) b" and k: "k \<le> ?s + 1" using Cons.prems(2) by auto
  then have se: "?s < ?e" and el: "?e \<le> length lns" by (auto simp: spanWithin_def)
  have dis: "spansDisjoint rest" using Cons.prems(1) by (simp add: spansDisjoint_def)
  have later: "\<forall>b'\<in>set rest. spanWithin (length lns) b' \<and> ?e \<le> b_startLine b' + 1"
    using Cons.prems(1,2) by (auto simp: spansDisjoint_def)
  have L: "?L = take ?e lns @ spliceAll reg lns ?e rest"
    using Cons.IH [OF dis later el] .
  have len: "length (take ?e lns) = ?e" using el by simp
  have tk: "take ?e ?L = take ?e lns" using L len by (metis append_eq_conv_conj)
  have dr: "drop ?e ?L = spliceAll reg lns ?e rest" using L len by (metis append_eq_conv_conj)
  have tk1: "take (?s + 1) ?L = take (?s + 1) lns"
  proof -
    have "take (?s + 1) ?L = take (?s + 1) (take ?e ?L)" using se by (simp add: min_def)
    also have "\<dots> = take (?s + 1) (take ?e lns)" using tk by simp
    also have "\<dots> = take (?s + 1) lns" using se by (simp add: min_def)
    finally show ?thesis .
  qed
  have split: "take (?s + 1) lns = take k lns @ take (?s + 1 - k) (drop k lns)"
    using k by (metis take_add le_add_diff_inverse)
  have "foldr (patchBlock reg) (b # rest) lns = patchBlock reg b ?L" by simp
  also have "\<dots> = take (?s + 1) ?L @ replacementLines reg b ?L @ drop ?e ?L"
    using patchBlock_eq [OF sw] .
  also have "\<dots> = take (?s + 1) lns @ replacementLines reg b lns @ spliceAll reg lns ?e rest"
    using tk1 dr replacementLines_cong [OF tk se] by simp
  also have "\<dots> = take k lns @ spliceAll reg lns k (b # rest)"
    using split by simp
  finally show ?case .
qed

lemma patchFile_prefix:
  assumes "spansDisjoint bs"
    and "\<forall>b\<in>set bs. spanWithin (length lns) b \<and> k \<le> b_startLine b + 1"
  shows "take k (foldr (patchBlock reg) bs lns) = take k lns"
proof (cases bs)
  case Nil
  then show ?thesis by simp
next
  case (Cons b rest)
  then have "spanWithin (length lns) b \<and> k \<le> b_startLine b + 1" using assms(2) by simp
  then have k: "k \<le> length lns" by (auto simp: spanWithin_def)
  then have "length (take k lns) = k" by simp
  then show ?thesis
    using patchFile_spliceAll_aux [OF assms k, of reg] by (metis append_eq_conv_conj)
qed

lemma parseFile_scan:
  "parseFile reg p text = Inr (fd, reg') \<Longrightarrow>
     f_lines fd = split_lines text
     \<and> scanLoop p (split_lines text) 0 [] reg = Inr (f_blocks fd, reg')"
  by (auto simp: parseFile_def Let_def split: sum.splits prod.splits)

lemma scanInv_start: "scanInv lns 0 []"
  by (simp add: scanInv_def spansDisjoint_def)

lemma parseFile_spans:
  assumes "parseFile reg p text = Inr (fd, reg')"
  shows "spansDisjoint (f_blocks fd) \<and> (\<forall>b\<in>set (f_blocks fd). spanWithin (length (f_lines fd)) b)"
  using parseFile_scan [OF assms] scanLoop_inv [of p "split_lines text" 0 "[]" reg "f_blocks fd" reg']
    scanInv_start by simp

text \<open>
  Claim C9 (disjoint spans). In every file record that the scanner produces, the
  recorded \<open>block_default\<close>/\<open>block\<close> occurrences are in strictly increasing order of
  start line and each one ends before the next one starts; every span lies within the
  file. Consequently the splices of the occurrences after \<open>b\<close>, which pass 2 applies
  before the splice of \<open>b\<close>, leave every line up to and including the closing line of
  \<open>b\<close> as it was.
\<close>

theorem C9_disjoint_spans:
  "parseFile reg p text = Inr (fd, reg') \<longrightarrow>
     spansDisjoint (f_blocks fd)
     \<and> (\<forall>b\<in>set (f_blocks fd).
           b_startLine b < b_endLine b \<and> b_endLine b \<le> length (f_lines fd))
     \<and> (\<forall>pre b post. f_blocks fd = pre @ b # post \<longrightarrow>
           take (b_endLine b + 1) (foldr (patchBlock rg) post (f_lines fd))
           = take (b_endLine b + 1) (f_lines fd))"
proof
  assume pf: "parseFile reg p text = Inr (fd, reg')"
  note sp = parseFile_spans [OF pf]
  have "take (b_endLine b + 1) (foldr (patchBlock rg) post (f_lines fd))
           = take (b_endLine b + 1) (f_lines fd)"
    if eq: "f_blocks fd = pre @ b # post" for pre b post
  proof -
    have d: "spansDisjoint post"
      using sp eq by (simp add: spansDisjoint_def sorted_wrt_append)
    have "\<forall>b'\<in>set post. spanWithin (length (f_lines fd)) b'
            \<and> b_endLine b + 1 \<le> b_startLine b' + 1"
      using sp eq by (auto simp: spansDisjoint_def sorted_wrt_append)
    then show ?thesis using patchFile_prefix [OF d] by blast
  qed
  then show "spansDisjoint (f_blocks fd)
     \<and> (\<forall>b\<in>set (f_blocks fd).
           b_startLine b < b_endLine b \<and> b_endLine b \<le> length (f_lines fd))
     \<and> (\<forall>pre b post. f_blocks fd = pre @ b # post \<longrightarrow>
           take (b_endLine b + 1) (foldr (patchBlock rg) post (f_lines fd))
           = take (b_endLine b + 1) (f_lines fd))"
    using sp by (auto simp: spanWithin_def)
qed

theorem C9_disjoint_spans_witness:
  "\<exists>fd reg'. parseFile Map.empty ''f'' exampleFile = Inr (fd, reg')
     \<and> map (\<lambda>b. (b_startLine b, b_endLine b)) (f_blocks fd) = [(0, 3), (5, 6)]
     \<and> spansDisjoint (f_blocks fd)"
proof -
  have "\<not> isl (parseFile Map.empty ''f'' exampleFile)" by code_simp
  then obtain fd reg' where pf: "parseFile Map.empty ''f'' exampleFile = Inr (fd, reg')"
    by (cases "parseFile Map.empty ''f'' exampleFile") auto
  have "map_sum id (\<lambda>(fd, reg). map (\<lambda>b. (b_startLine b, b_endLine b)) (f_blocks fd))
          (parseFile Map.empty ''f'' exampleFile) = Inr [(0, 3), (5, 6)]"
    by code_simp
  then have m: "map (\<lambda>b. (b_startLine b, b_endLine b)) (f_blocks fd) = [(0, 3), (5, 6)]"
    using pf by simp
  have d: "spansDisjoint (f_blocks fd)"
    using pf C9_disjoint_spans [of Map.empty "''f''" exampleFile fd reg' Map.empty] by simp
  show ?thesis
    by (rule exI [of _ fd], rule exI [of _ reg']) (simp add: pf m d)
qed

text \<open>
  Claim C10 (scanner termination). The scanning loop ends within
  \<open>length lns - i\<close> iterations: with that bound on the iterations it returns what the
  loop returns. Every iteration that does not throw strictly increases the scan index:
  by one for a line that is no opening directive, to \<open>endLine + 1 \<ge> i + 2\<close> for
  \<open>block_default\<close>/\<open>block\<close>, and to \<open>nextLine \<ge> i + 1\<close> for
  \<open>block_replace\<close>/\<open>block_append\<close>; \<open>parseTemplateContent\<close> never returns a
  \<open>nextLine\<close> below its start index.
\<close>

theorem C10_scanner_terminates:
  "scanFuel (length lns - i) p lns i bs reg = Some (scanLoop p lns i bs reg)
   \<and> (i < length lns \<and> scanStep p lns i bs reg = Inr (i', bs', reg') \<longrightarrow>
        i < i' \<and>
        (case parseTemplateLine (lns ! i) of
           Inr (Some (Block ty bid)) \<Rightarrow>
             if ty = block_default \<or> ty = block
             then \<exists>endLn. findEndblock lns (i + 1) = Inr endLn \<and> i' = endLn + 1 \<and> i + 2 \<le> i'
             else \<exists>c t b. getCommentIndent (lns ! i) = Some b
                    \<and> parseTemplateContent lns (i + 1) b = Inr (c, i', t) \<and> i + 1 \<le> i'
         | _ \<Rightarrow> i' = i + 1))
   \<and> (parseTemplateContent lns s b0 = Inr (c0, n, t0) \<longrightarrow> s \<le> n)"
  using scanFuel_enough [of lns i "length lns - i" p bs reg]
        scanStep_bounds [of i lns p bs reg i' bs' reg']
        scanStep_increases [of p lns i bs reg i' bs' reg']
        parseTemplateContent_nextLine [of lns s b0 c0 n t0]
  by blast

theorem C10_scanner_terminates_witness:
  "scanFuel 4 ''f'' exampleLines 0 [] Map.empty = Some (scanLoop ''f'' exampleLines 0 [] Map.empty)
   \<and> (\<exists>bs' reg'. scanStep ''f'' exampleLines 0 [] Map.empty = Inr (2, bs', reg'))
   \<and> (\<exists>bs' reg'. scanStep ''f'' exampleLines 2 [] Map.empty = Inr (3, bs', reg'))
   \<and> (\<exists>bs' reg'. scanStep ''f'' exampleLines 3 [] Map.empty = Inr (5, bs', reg'))
   \<and> (\<exists>c0 t0. parseTemplateContent exampleLines 1 ''// '' = Inr (c0, 2, t0))"
proof -
  have len: "length exampleLines = 4" by (simp add: exampleLines_def)
  have a: "scanFuel 4 ''f'' exampleLines 0 [] Map.empty = Some (scanLoop ''f'' exampleLines 0 [] Map.empty)"
    using C10_scanner_terminates [of exampleLines 0 "''f''" "[]" Map.empty] len by simp
  have s0: "map_sum id fst (scanStep ''f'' exampleLines 0 [] Map.empty) = Inr 2" by code_simp
  have s2: "map_sum id fst (scanStep ''f'' exampleLines 2 [] Map.empty) = Inr 3" by code_simp
  have s3: "map_sum id fst (scanStep ''f'' exampleLines 3 [] Map.empty) = Inr 5" by code_simp
  have pc: "map_sum id (\<lambda>(c, n, t). n) (parseTemplateContent exampleLines 1 ''// '') = Inr 2" by code_simp
  have b: "\<exists>bs' reg'. scanStep ''f'' exampleLines 0 [] Map.empty = Inr (2, bs', reg')"
    using s0 by (cases "scanStep ''f'' exampleLines 0 [] Map.empty") auto
  have c: "\<exists>bs' reg'. scanStep ''f'' exampleLines 2 [] Map.empty = Inr (3, bs', reg')"
    using s2 by (cases "scanStep ''f'' exampleLines 2 [] Map.empty") auto
  have d: "\<exists>bs' reg'. scanStep ''f'' exampleLines 3 [] Map.empty = Inr (5, bs', reg')"
    using s3 by (cases "scanStep ''f'' exampleLines 3 [] Map.empty") auto
  have e: "\<exists>c0 t0. parseTemplateContent exampleLines 1 ''// '' = Inr (c0, 2, t0)"
    using pc by (cases "parseTemplateContent exampleLines 1 ''// ''") auto
  show ?thesis using a b c d e by blast
qed

subsection \<open>Malformed directives\<close>

lemma malformedDirective_iff:
  "malformedDirective l \<longleftrightarrow>
     (\<exists>d. directive_match (trim l) = Some d
        \<and> hd (split_ws d) \<in> {''@block_default'', ''@block'', ''@block_replace'', ''@block_append''}
        \<and> length (tl (split_ws d)) \<noteq> 1)"
  by (auto simp: malformedDirective_def parseTemplateLine_def Let_def split: option.splits)

lemma wfFrom_0: "wfFrom lns 0 \<longleftrightarrow> (\<forall>l\<in>set lns. \<not> malformedDirective l)"
  by (simp add: wfFrom_def list_all_iff)

lemma parseFile_total:
  assumes "wfFrom (split_lines text) 0"
  shows "\<exists>r. parseFile reg p text = Inr r"
  using scanLoop_total [OF assms, of p "[]" reg]
  by (auto simp: parseFile_def Let_def)

lemma parseFile_fails:
  assumes "\<not> wfFrom (split_lines text) 0"
  shows "\<exists>x. parseFile reg p text = Inl (Thrown x)"
proof (cases "scanLoop p (split_lines text) 0 [] reg")
  case (Inl e)
  then obtain x where "e = Thrown x" using scanLoop_error by blast
  then show ?thesis using Inl by (simp add: parseFile_def)
next
  case (Inr r)
  then show ?thesis using scanLoop_wf assms by blast
qed

lemma parseFiles_total:
  "(\<forall>(p, t)\<in>set fs. wfFrom (split_lines t) 0) \<Longrightarrow> \<exists>r. parseFiles files reg fs = Inr r"
proof (induction fs arbitrary: files reg)
  case Nil
  then show ?case by simp
next
  case (Cons f fs)
  obtain p t where f: "f = (p, t)" by (cases f) auto
  then have "wfFrom (split_lines t) 0" using Cons.prems by simp
  then obtain fd reg' where "parseFile reg p t = Inr (fd, reg')"
    using parseFile_total by (metis surj_pair)
  then show ?case using Cons f by simp
qed

lemma parseFiles_fails:
  "(\<exists>(p, t)\<in>set fs. \<not> wfFrom (split_lines t) 0) \<Longrightarrow> \<exists>x. parseFiles files reg fs = Inl (Thrown x)"
proof (induction fs arbitrary: files reg)
  case Nil
  then show ?case by simp
next
  case (Cons f fs)
  obtain p t where f: "f = (p, t)" by (cases f) auto
  show ?case
  proof (cases "wfFrom (split_lines t) 0")
    case False
    then obtain x where "parseFile reg p t = Inl (Thrown x)" using parseFile_fails by blast
    then show ?thesis using f by simp
  next
    case True
    then obtain fd reg' where pf: "parseFile reg p t = Inr (fd, reg')"
      using parseFile_total by (metis surj_pair)
    have "\<exists>(p, t)\<in>set fs. \<not> wfFrom (split_lines t) 0" using Cons.prems f True by auto
    then show ?thesis using Cons.IH pf f by simp
  qed
qed

text \<open>
  Claim C6 (malformed directives). If any line of any file of the set is a malformed
  directive, pass 1 throws, the run ends as a failure and nothing is written (a failed
  run has no list of writes); if no line is malformed the run does not fail. A line is
  malformed exactly when it matches the directive pattern with one of the commands
  \<open>@block_default\<close>, \<open>@block\<close>, \<open>@block_replace\<close>, \<open>@block_append\<close> and a number of
  arguments other than one.
\<close>

theorem C6_malformed_aborts:
  "((\<exists>(p, t)\<in>set fs. \<exists>l\<in>set (split_lines t). malformedDirective l) \<longrightarrow>
      (\<exists>x. parseFiles [] Map.empty fs = Inl (Thrown x) \<and> process fs = Inl (Thrown x)))
   \<and> ((\<forall>(p, t)\<in>set fs. \<forall>l\<in>set (split_lines t). \<not> malformedDirective l) \<longrightarrow>
      (\<exists>w. process fs = Inr w))
   \<and> (malformedDirective l \<longleftrightarrow>
        (\<exists>d. directive_match (trim l) = Some d
           \<and> hd (split_ws d) \<in> {''@block_default'', ''@block'', ''@block_replace'', ''@block_append''}
           \<and> length (tl (split_ws d)) \<noteq> 1))"
proof (intro conjI impI)
  assume "\<exists>(p, t)\<in>set fs. \<exists>l\<in>set (split_lines t). malformedDirective l"
  then have bad: "\<exists>(p, t)\<in>set fs. \<not> wfFrom (split_lines t) 0" by (auto simp: wfFrom_0)
  then obtain x where x: "parseFiles [] Map.empty fs = Inl (Thrown x)"
    using parseFiles_fails by blast
  have "fs \<noteq> []" using bad by auto
  then have "process fs = Inl (Thrown x)" using x by (simp add: process_def)
  then show "\<exists>x. parseFiles [] Map.empty fs = Inl (Thrown x) \<and> process fs = Inl (Thrown x)"
    using x by blast
next
  assume "\<forall>(p, t)\<in>set fs. \<forall>l\<in>set (split_lines t). \<not> malformedDirective l"
  then have "\<forall>(p, t)\<in>set fs. wfFrom (split_lines t) 0" by (auto simp: wfFrom_0)
  then obtain r where "parseFiles [] Map.empty fs = Inr r" using parseFiles_total by blast
  then show "\<exists>w. process fs = Inr w" by (cases r) (simp add: process_def)
next
  show "malformedDirective l \<longleftrightarrow>
        (\<exists>d. directive_match (trim l) = Some d
           \<and> hd (split_ws d) \<in> {''@block_default'', ''@block'', ''@block_replace'', ''@block_append''}
           \<and> length (tl (split_ws d)) \<noteq> 1)"
    by (rule malformedDirective_iff)
qed

theorem C6_malformed_aborts_witness:
  "process exampleBad = Inl (Thrown (InvalidDirective ''@block_replace''))
   \<and> process exampleGood = Inr [(''a.c'', join_lines [''// @block_default X'', ''1'', ''// @endblock''])]
   \<and> malformedDirective ''// @block_replace X Y''
   \<and> malformedDirective ''// @block''
   \<and> \<not> malformedDirective ''// @block_replace X''"
proof -
  have bad: "\<exists>(p, t)\<in>set exampleBad. \<exists>l\<in>set (split_lines t). malformedDirective l"
    by code_simp
  have good: "\<forall>(p, t)\<in>set exampleGood. \<forall>l\<in>set (split_lines t). \<not> malformedDirective l"
    by code_simp
  have "\<exists>x. process exampleBad = Inl (Thrown x)"
    using C6_malformed_aborts [of exampleBad] bad by blast
  moreover have "map_sum (\<lambda>e. ()) id (process exampleBad) = Inl ()
       \<longrightarrow> process exampleBad = Inl (Thrown (InvalidDirective ''@block_replace''))"
    by code_simp
  ultimately have a: "process exampleBad = Inl (Thrown (InvalidDirective ''@block_replace''))"
    by auto
  have "\<exists>w. process exampleGood = Inr w"
    using C6_malformed_aborts [of exampleGood] good by blast
  moreover have "\<not> isl (process exampleGood) \<longrightarrow>
      process exampleGood = Inr [(''a.c'', join_lines [''// @block_default X'', ''1'', ''// @endblock''])]"
    by code_simp
  ultimately have b: "process exampleGood = Inr [(''a.c'', join_lines [''// @block_default X'', ''1'', ''// @endblock''])]"
    by auto
  have c: "malformedDirective ''// @block_replace X Y''" by code_simp
  have d: "malformedDirective ''// @block''" by code_simp
  have e: "\<not> malformedDirective ''// @block_replace X''" by code_simp
  show ?thesis using a b c d e by blast
qed

subsection \<open>Unterminated blocks\<close>

lemma scanLoop_unterminated:
  assumes i: "i < length lns"
    and dir: "parseTemplateLine (lns ! i) = Inr (Some (Block ty bid))"
    and ty: "ty = block_default \<or> ty = block"
    and noend: "\<forall>j. i < j \<and> j < length lns \<longrightarrow> parseTemplateLine (lns ! j) \<noteq> Inr (Some Endblock)"
  shows "wfFrom lns k \<Longrightarrow> k \<le> i \<Longrightarrow>
     \<exists>bs' reg'. scanLoop p lns k bs reg = Inr (bs', reg') \<and> bs' \<noteq> []
        \<and> k \<le> b_startLine (last bs') \<and> b_startLine (last bs') \<le> i
        \<and> b_endLine (last bs') = length lns"
proof (induction "length lns - k" arbitrary: k bs reg rule: less_induct)
  case less
  have kl: "k < length lns" using less.prems(2) i by simp
  then show ?case
  proof (cases rule: scanStep_cases [of k lns p bs reg])
    case (throw x j)
    then show ?thesis using less.prems(1) by (auto simp: wfFrom_iff)
  next
    case (plain d)
    have "k \<noteq> i"
    proof
      assume "k = i"
      then have "d = Some (Block ty bid)" using plain(1) dir by simp
      then show False using plain(2) by blast
    qed
    then have ki: "k + 1 \<le> i" using less.prems(2) by simp
    have "wfFrom lns (k + 1)" using less.prems(1) wfFrom_mono by simp
    moreover have "length lns - (k + 1) < length lns - k" using kl by simp
    ultimately obtain bs' reg' where r: "scanLoop p lns (k + 1) bs reg = Inr (bs', reg')"
        "bs' \<noteq> []" "k + 1 \<le> b_startLine (last bs')" "b_startLine (last bs') \<le> i"
        "b_endLine (last bs') = length lns"
      using less.hyps [of "k + 1" bs reg] ki by blast
    have "scanLoop p lns k bs reg = Inr (bs', reg')"
      using r(1) scanLoop_step [OF kl plain(3)] by simp
    then show ?thesis using r by auto
  next
    case (blk ty' bid' base endLn content rg)
    let ?bs = "bs @ [recordBlock k ty' bid' base endLn content]"
    have fp: "k + 1 \<le> endLn \<and> endLn \<le> length lns
         \<and> (endLn < length lns \<longrightarrow> parseTemplateLine (lns ! endLn) = Inr (Some Endblock))"
      using findEndblock_props [OF blk(4)] kl by simp
    have st: "scanLoop p lns k bs reg = scanLoop p lns (endLn + 1) ?bs rg"
      using scanLoop_step [OF kl blk(6)] .
    show ?thesis
    proof (cases "endLn < i")
      case True
      have "wfFrom lns (endLn + 1)" using less.prems(1) wfFrom_mono fp by simp
      moreover have "length lns - (endLn + 1) < length lns - k" using kl fp by linarith
      moreover have "endLn + 1 \<le> i" using True by simp
      ultimately obtain bs' reg' where r: "scanLoop p lns (endLn + 1) ?bs rg = Inr (bs', reg')"
          "bs' \<noteq> []" "endLn + 1 \<le> b_startLine (last bs')" "b_startLine (last bs') \<le> i"
          "b_endLine (last bs') = length lns"
        using less.hyps [of "endLn + 1" ?bs rg] by blast
      have "k \<le> b_startLine (last bs')" using r(3) fp by linarith
      then show ?thesis using st r by auto
    next
      case False
      have "endLn = length lns"
      proof (rule ccontr)
        assume "endLn \<noteq> length lns"
        then have lt: "endLn < length lns" using fp by simp
        then have eb: "parseTemplateLine (lns ! endLn) = Inr (Some Endblock)" using fp by simp
        have "endLn \<noteq> i" using eb dir by auto
        then have "i < endLn" using False by simp
        then show False using noend lt eb by blast
      qed
      then have "scanLoop p lns (endLn + 1) ?bs rg = Inr (?bs, rg)"
        using scanLoop_end by simp
      then have "scanLoop p lns k bs reg = Inr (?bs, rg)" using st by simp
      moreover have "?bs \<noteq> []" by simp
      moreover have "b_startLine (last ?bs) = k" by (simp add: recordBlock_def)
      moreover have "b_endLine (last ?bs) = length lns"
        using \<open>endLn = length lns\<close> by (simp add: recordBlock_def)
      ultimately show ?thesis using less.prems(2) by (metis order_refl)
    qed
  next
    case (feed ty' bid' base content n t rg)
    have "k \<noteq> i" using feed(1,2) dir ty by auto
    then have ki: "k + 1 \<le> i" using less.prems(2) by simp
    have pp: "k + 1 \<le> n \<and> n \<le> length lns
         \<and> (\<forall>j. k + 1 \<le> j \<and> j < n \<longrightarrow> parseTemplateLine (lns ! j) = Inr None)"
      using parseTemplateContent_props [OF feed(4)] kl by simp
    have ni: "n \<le> i"
    proof (rule ccontr)
      assume "\<not> n \<le> i"
      then have "parseTemplateLine (lns ! i) = Inr None" using pp ki by simp
      then show False using dir by simp
    qed
    have "wfFrom lns n" using less.prems(1) wfFrom_mono pp by simp
    moreover have "length lns - n < length lns - k" using kl pp by linarith
    ultimately obtain bs' reg' where r: "scanLoop p lns n bs rg = Inr (bs', reg')"
        "bs' \<noteq> []" "n \<le> b_startLine (last bs')" "b_startLine (last bs') \<le> i"
        "b_endLine (last bs') = length lns"
      using less.hyps [of n bs rg] ni by blast
    have "k \<le> b_startLine (last bs')" using r(3) pp by linarith
    moreover have "scanLoop p lns k bs reg = Inr (bs', reg')"
      using r(1) scanLoop_step [OF kl feed(5)] by simp
    ultimately show ?thesis using r by auto
  qed
qed

text \<open>
  Claim C8 (unterminated blocks). If line \<open>i\<close> of a file is a \<open>block_default\<close> or
  \<open>block\<close> directive, no later line is an \<open>@endblock\<close> directive, and no line of the
  file is a malformed directive, then scanning the file succeeds, the last occurrence
  recorded starts at or before line \<open>i\<close> and its span extends to the end of the file
  (\<open>endLine\<close> is the number of lines), and the run on that file completes.
\<close>

theorem C8_unterminated_block:
  "i < length (split_lines text)
   \<and> parseTemplateLine (split_lines text ! i) = Inr (Some (Block ty bid))
   \<and> (ty = block_default \<or> ty = block)
   \<and> (\<forall>j. i < j \<and> j < length (split_lines text)
          \<longrightarrow> parseTemplateLine (split_lines text ! j) \<noteq> Inr (Some Endblock))
   \<and> (\<forall>l\<in>set (split_lines text). \<not> malformedDirective l)
   \<longrightarrow> (\<exists>fd reg'. parseFile reg p text = Inr (fd, reg')
          \<and> f_blocks fd \<noteq> []
          \<and> b_startLine (last (f_blocks fd)) \<le> i
          \<and> b_endLine (last (f_blocks fd)) = length (f_lines fd))
       \<and> (\<exists>w. process [(p, text)] = Inr w)"
proof
  let ?lns = "split_lines text"
  assume a: "i < length ?lns
   \<and> parseTemplateLine (?lns ! i) = Inr (Some (Block ty bid))
   \<and> (ty = block_default \<or> ty = block)
   \<and> (\<forall>j. i < j \<and> j < length ?lns \<longrightarrow> parseTemplateLine (?lns ! j) \<noteq> Inr (Some Endblock))
   \<and> (\<forall>l\<in>set ?lns. \<not> malformedDirective l)"
  then have wf: "wfFrom ?lns 0" by (simp add: wfFrom_0)
  from a obtain bs' reg' where r: "scanLoop p ?lns 0 [] reg = Inr (bs', reg')" "bs' \<noteq> []"
      "b_startLine (last bs') \<le> i" "b_endLine (last bs') = length ?lns"
    using scanLoop_unterminated [of i ?lns ty bid 0 p "[]" reg] wf by blast
  have pf: "parseFile reg p text = Inr (\<lparr>f_lines = ?lns, f_blocks = bs'\<rparr>, reg')"
    using r(1) by (simp add: parseFile_def)
  have 1: "\<exists>fd reg'. parseFile reg p text = Inr (fd, reg')
          \<and> f_blocks fd \<noteq> []
          \<and> b_startLine (last (f_blocks fd)) \<le> i
          \<and> b_endLine (last (f_blocks fd)) = length (f_lines fd)"
    by (rule exI [of _ "\<lparr>f_lines = ?lns, f_blocks = bs'\<rparr>"], rule exI [of _ reg'])
       (simp add: pf r)
  have "\<forall>(p, t)\<in>set [(p, text)]. wfFrom (split_lines t) 0" using wf by simp
  then obtain x where "parseFiles [] Map.empty [(p, text)] = Inr x"
    using parseFiles_total by blast
  then have 2: "\<exists>w. process [(p, text)] = Inr w" by (cases x) (simp add: process_def)
  show "(\<exists>fd reg'. parseFile reg p text = Inr (fd, reg')
          \<and> f_blocks fd \<noteq> []
          \<and> b_startLine (last (f_blocks fd)) \<le> i
          \<and> b_endLine (last (f_blocks fd)) = length (f_lines fd))
       \<and> (\<exists>w. process [(p, text)] = Inr w)"
    using 1 2 by blast
qed

theorem C8_unterminated_block_witness:
  "(\<exists>fd reg'. parseFile Map.empty ''f.c'' exampleOpen = Inr (fd, reg')
      \<and> map (\<lambda>b. (b_startLine b, b_endLine b)) (f_blocks fd) = [(1, 6)]
      \<and> length (f_lines fd) = 6)
   \<and> process [(''f.c'', exampleOpen)]
       = Inr [(''f.c'', join_lines [''int x;'', ''// @block_default X'', ''//   a'', ''a''])]"
proof -
  have h: "1 < length (split_lines exampleOpen)
   \<and> parseTemplateLine (split_lines exampleOpen ! 1) = Inr (Some (Block block_default ''X''))
   \<and> (block_default = block_default \<or> block_default = block)
   \<and> (\<forall>j. 1 < j \<and> j < length (split_lines exampleOpen)
          \<longrightarrow> parseTemplateLine (split_lines exampleOpen ! j) \<noteq> Inr (Some Endblock))
   \<and> (\<forall>l\<in>set (split_lines exampleOpen). \<not> malformedDirective l)"
  proof (intro conjI)
    show "1 < length (split_lines exampleOpen)" by code_simp
    show "parseTemplateLine (split_lines exampleOpen ! 1) = Inr (Some (Block block_default ''X''))"
      by code_simp
    show "block_default = block_default \<or> block_default = block" by simp
    have "list_all (\<lambda>l. parseTemplateLine l \<noteq> Inr (Some Endblock)) (split_lines exampleOpen)"
      by code_simp
    then show "\<forall>j. 1 < j \<and> j < length (split_lines exampleOpen)
          \<longrightarrow> parseTemplateLine (split_lines exampleOpen ! j) \<noteq> Inr (Some Endblock)"
      by (simp add: list_all_length)
    show "\<forall>l\<in>set (split_lines exampleOpen). \<not> malformedDirective l" by code_simp
  qed
  from C8_unterminated_block [of 1 exampleOpen block_default "''X''" Map.empty "''f.c''"] h
  obtain fd reg' where r: "parseFile Map.empty ''f.c'' exampleOpen = Inr (fd, reg')"
      "f_blocks fd \<noteq> []" "b_endLine (last (f_blocks fd)) = length (f_lines fd)"
      and w: "\<exists>w. process [(''f.c'', exampleOpen)] = Inr w"
    by blast
  have "map_sum id (\<lambda>(fd, reg). (map (\<lambda>b. (b_startLine b, b_endLine b)) (f_blocks fd),
            length (f_lines fd)))
          (parseFile Map.empty ''f.c'' exampleOpen) = Inr ([(1, 6)], 6)"
    by code_simp
  then have m: "map (\<lambda>b. (b_startLine b, b_endLine b)) (f_blocks fd) = [(1, 6)]"
      "length (f_lines fd) = 6"
    using r(1) by simp_all
  have a: "\<exists>fd reg'. parseFile Map.empty ''f.c'' exampleOpen = Inr (fd, reg')
      \<and> map (\<lambda>b. (b_startLine b, b_endLine b)) (f_blocks fd) = [(1, 6)]
      \<and> length (f_lines fd) = 6"
    by (rule exI [of _ fd], rule exI [of _ reg']) (simp add: r m)
  have "\<not> isl (process [(''f.c'', exampleOpen)]) \<longrightarrow> process [(''f.c'', exampleOpen)]
       = Inr [(''f.c'', join_lines [''int x;'', ''// @block_default X'', ''//   a'', ''a''])]"
    by code_simp
  then have b: "process [(''f.c'', exampleOpen)]
       = Inr [(''f.c'', join_lines [''int x;'', ''// @block_default X'', ''//   a'', ''a''])]"
    using w by auto
  show ?thesis using a b by blast
qed

subsection \<open>Written files and the second run\<close>

lemma isModified_iff:
  assumes "\<forall>b\<in>set (f_blocks fd). spanWithin n b"
  shows "isModified fd \<longleftrightarrow> f_blocks fd \<noteq> []"
proof
  assume "isModified fd"
  then show "f_blocks fd \<noteq> []" by (auto simp: isModified_def list_ex_iff)
next
  assume "f_blocks fd \<noteq> []"
  then obtain b where b: "b \<in> set (f_blocks fd)" by (cases "f_blocks fd") auto
  then have "b_type b = block_default \<or> b_type b = block"
    using assms by (auto simp: spanWithin_def)
  then show "isModified fd" using b by (auto simp: isModified_def list_ex_iff)
qed

text \<open>
  Claim C4 (rewritten or unchanged), as amended. For every file record that the scanner
  produces, the file is written exactly when the scanner recorded at least one
  \<open>block_default\<close>/\<open>block\<close> occurrence in it, and what is written is the patched line
  sequence joined with LF; the patched text is not compared with the original.
\<close>

theorem C4_written_iff_has_block:
  "parseFile reg0 p text = Inr (fd, reg') \<longrightarrow>
     (outputFile reg fd \<noteq> None \<longleftrightarrow> f_blocks fd \<noteq> [])
     \<and> (f_blocks fd \<noteq> [] \<longrightarrow> outputFile reg fd = Some (join_lines (patchFile reg fd)))"
proof
  assume pf: "parseFile reg0 p text = Inr (fd, reg')"
  have "isModified fd \<longleftrightarrow> f_blocks fd \<noteq> []"
    using parseFile_spans [OF pf] isModified_iff by blast
  then show "(outputFile reg fd \<noteq> None \<longleftrightarrow> f_blocks fd \<noteq> [])
     \<and> (f_blocks fd \<noteq> [] \<longrightarrow> outputFile reg fd = Some (join_lines (patchFile reg fd)))"
    by (simp add: outputFile_def)
qed

theorem C4_written_iff_has_block_witness:
  "\<exists>fd reg'. parseFile Map.empty ''f.c'' exampleMarker = Inr (fd, reg')
     \<and> length (f_blocks fd) = 1
     \<and> outputFile Map.empty fd = Some (join_lines (patchFile Map.empty fd))"
proof -
  have "\<not> isl (parseFile Map.empty ''f.c'' exampleMarker)" by code_simp
  then obtain fd reg' where pf: "parseFile Map.empty ''f.c'' exampleMarker = Inr (fd, reg')"
    by (cases "parseFile Map.empty ''f.c'' exampleMarker") auto
  have "map_sum id (\<lambda>(fd, reg). length (f_blocks fd)) (parseFile Map.empty ''f.c'' exampleMarker)
        = Inr 1"
    by code_simp
  then have l: "length (f_blocks fd) = 1" using pf by simp
  then have ne: "f_blocks fd \<noteq> []" by auto
  have o: "outputFile Map.empty fd = Some (join_lines (patchFile Map.empty fd))"
    using C4_written_iff_has_block [of Map.empty "''f.c''" exampleMarker fd reg' Map.empty] pf ne
    by simp
  show ?thesis
    by (rule exI [of _ fd], rule exI [of _ reg']) (simp add: pf l o)
qed

text \<open>
  The claim as stated fails: a file with an empty \<open>block\<close> marker that resolves to
  nothing is written although its text stays the same.
\<close>

theorem C4_counterexample:
  "process [(''f.c'', exampleMarker)] = Inr [(''f.c'', exampleMarker)]"
  by code_simp

text \<open>
  Claim C2 (idempotence). The code does not meet it for a default block whose template
  has an empty comment line: the preservation loop keeps only the template comments
  before the empty one, while the content extractor had read the whole template, so
  the first run emits the whole template and deletes its tail, and the second run
  reads the shortened template and emits less.
\<close>

theorem C2_second_run_changes:
  "process [(''f.c'', exampleBlank)]
     = Inr [(''f.c'', join_lines [''// @block_default X'', ''//   a'', ''a'', [], ''b'',
                                  ''// @endblock''])]
   \<and> process (applyWrites
        [(''f.c'', join_lines [''// @block_default X'', ''//   a'', ''a'', [], ''b'',
                               ''// @endblock''])]
        [(''f.c'', exampleBlank)])
     = Inr [(''f.c'', join_lines [''// @block_default X'', ''//   a'', ''a'', ''// @endblock''])]"
  by code_simp

subsection \<open>Acceptance of comment lines\<close>

lemma comment_line_matches:
  assumes "startsWith (trim l) ''//''"
  shows "getCommentIndent l
           = Some (takeWhile is_space l @ ''//'' @ takeWhile is_space (drop 2 (dropWhile is_space l)))"
    and "contentMatch l
           = Some (takeWhile is_space l, takeWhile is_space (drop 2 (dropWhile is_space l)),
                   takeWhile (\<lambda>c. \<not> is_lt c)
                     (dropWhile is_space (drop 2 (dropWhile is_space l))))"
  using startsWith_trim_line [OF assms]
  by (simp_all add: getCommentIndent_def contentMatch_def Let_def)

lemma trim_prefix_ex:
  "\<exists>w. dropWhile is_space l = trim l @ w \<and> (\<forall>c\<in>set w. is_space c)"
proof -
  have "\<forall>c\<in>set (rev (takeWhile is_space (rev (dropWhile is_space l)))). is_space c"
    by (auto dest: set_takeWhileD)
  then show ?thesis using trim_prefix [of l] by blast
qed

lemma bare_comment_text:
  assumes "trim l = ''//''"
  shows "dropWhile is_space (drop 2 (dropWhile is_space l)) = []"
proof -
  obtain w where w: "dropWhile is_space l = trim l @ w" "\<forall>c\<in>set w. is_space c"
    using trim_prefix_ex by blast
  have "drop 2 (dropWhile is_space l) = w" using w(1) assms by simp
  then show ?thesis using w(2) by simp
qed

lemma trim_Nil: "trim [] = []"
  by (simp add: trim_def)

lemma contentLineStep_comment:
  assumes c: "startsWith (trim line) ''//''" and d: "parseTemplateLine line = Inr None"
    and g: "getCommentIndent line = Some ci"
    and m: "contentMatch line = Some (li, sp, tx)"
  shows "contentLineStep baseIndent line =
      (if length baseIndent \<le> length ci \<or> trim line = ''//''
       then Consume (Some \<lparr>indent = li, commentSpaces = sp,
                            contentText = tx, originalLine = line,
                            isEmpty = (trim tx = []), finalContent = None\<rparr>)
       else Break)"
  unfolding contentLineStep_def Let_def
  using c d g m by simp

text \<open>
  Claim C5 (acceptance rule of the content extractor), as amended. A comment line that
  is not a directive is accepted into the body run exactly when its comment prefix (the
  leading white space, \<open>//\<close> and the white space after it, as \<open>getCommentIndent\<close>
  returns it) is at least as long as the comment prefix of the opening directive, or
  when the line consists solely of \<open>//\<close>; otherwise the run stops. A line that is
  solely \<open>//\<close> is recorded as a blank content line.
\<close>

theorem C5_acceptance_rule:
  "startsWith (trim line) ''//'' \<and> parseTemplateLine line = Inr None \<longrightarrow>
     (\<exists>commentIndent. getCommentIndent line = Some commentIndent
        \<and> (length baseIndent \<le> length commentIndent \<or> trim line = ''//'' \<longrightarrow>
             (\<exists>it. contentLineStep baseIndent line = Consume (Some it)
                \<and> originalLine it = line
                \<and> (trim line = ''//'' \<longrightarrow> isEmpty it \<and> contentText it = [])))
        \<and> (\<not> (length baseIndent \<le> length commentIndent \<or> trim line = ''//'') \<longrightarrow>
             contentLineStep baseIndent line = Break))"
proof
  assume a: "startsWith (trim line) ''//'' \<and> parseTemplateLine line = Inr None"
  then have c: "startsWith (trim line) ''//''" and d: "parseTemplateLine line = Inr None" by auto
  obtain ci where g: "getCommentIndent line = Some ci"
    using comment_line_matches(1) [OF c] by blast
  obtain li sp tx where m: "contentMatch line = Some (li, sp, tx)"
      and tx: "tx = takeWhile (\<lambda>c. \<not> is_lt c)
                     (dropWhile is_space (drop 2 (dropWhile is_space line)))"
    using comment_line_matches(2) [OF c] by blast
  note step = contentLineStep_comment [OF c d g m, of baseIndent]
  have bare: "tx = []" if "trim line = ''//''"
    by (simp only: tx bare_comment_text [OF that] takeWhile.simps)
  have acc: "\<exists>it. contentLineStep baseIndent line = Consume (Some it)
                \<and> originalLine it = line
                \<and> (trim line = ''//'' \<longrightarrow> isEmpty it \<and> contentText it = [])"
    if h: "length baseIndent \<le> length ci \<or> trim line = ''//''"
  proof -
    let ?it = "\<lparr>indent = li, commentSpaces = sp, contentText = tx, originalLine = line,
                isEmpty = (trim tx = []), finalContent = None\<rparr>"
    have 1: "contentLineStep baseIndent line = Consume (Some ?it)" using step h by simp
    have 2: "trim line = ''//'' \<longrightarrow> isEmpty ?it \<and> contentText ?it = []"
      using bare trim_Nil by simp
    show ?thesis
      by (rule exI [of _ ?it]) (use 1 2 trim_Nil in simp)
  qed
  have rej: "contentLineStep baseIndent line = Break"
    if "\<not> (length baseIndent \<le> length ci \<or> trim line = ''//'')"
    using that step by simp
  show "\<exists>commentIndent. getCommentIndent line = Some commentIndent
        \<and> (length baseIndent \<le> length commentIndent \<or> trim line = ''//'' \<longrightarrow>
             (\<exists>it. contentLineStep baseIndent line = Consume (Some it)
                \<and> originalLine it = line
                \<and> (trim line = ''//'' \<longrightarrow> isEmpty it \<and> contentText it = [])))
        \<and> (\<not> (length baseIndent \<le> length commentIndent \<or> trim line = ''//'') \<longrightarrow>
             contentLineStep baseIndent line = Break)"
  proof (rule exI [of _ ci], intro conjI impI)
    show "getCommentIndent line = Some ci" by (rule g)
  next
    assume "length baseIndent \<le> length ci \<or> trim line = ''//''"
    then show "\<exists>it. contentLineStep baseIndent line = Consume (Some it)
                \<and> originalLine it = line
                \<and> (trim line = ''//'' \<longrightarrow> isEmpty it \<and> contentText it = [])"
      by (rule acc)
  next
    assume "\<not> (length baseIndent \<le> length ci \<or> trim line = ''//'')"
    then show "contentLineStep baseIndent line = Break" by (rule rej)
  qed
qed

theorem C5_acceptance_rule_witness:
  "(\<exists>it. contentLineStep ''  // '' ''    //   x'' = Consume (Some it))
   \<and> (\<exists>it. contentLineStep ''  // '' ''//'' = Consume (Some it) \<and> isEmpty it)
   \<and> contentLineStep ''  // '' ''//  x'' = Break"
proof -
  have h1: "startsWith (trim ''    //   x'') ''//'' \<and> parseTemplateLine ''    //   x'' = Inr None"
    by code_simp
  have g1: "getCommentIndent ''    //   x'' = Some ''    //   ''" by code_simp
  have h2: "startsWith (trim ''//'') ''//'' \<and> parseTemplateLine ''//'' = Inr None"
    by code_simp
  have t2: "trim ''//'' = ''//''" by code_simp
  have h3: "startsWith (trim ''//  x'') ''//'' \<and> parseTemplateLine ''//  x'' = Inr None"
    by code_simp
  have g3: "getCommentIndent ''//  x'' = Some ''//  ''" by code_simp
  have t3: "trim ''//  x'' \<noteq> ''//''" by code_simp
  have a: "\<exists>it. contentLineStep ''  // '' ''    //   x'' = Consume (Some it)"
    using C5_acceptance_rule [of "''    //   x''" "''  // ''"] h1 g1 by auto
  have b: "\<exists>it. contentLineStep ''  // '' ''//'' = Consume (Some it) \<and> isEmpty it"
    using C5_acceptance_rule [of "''//''" "''  // ''"] h2 t2 by auto
  have c: "contentLineStep ''  // '' ''//  x'' = Break"
    using C5_acceptance_rule [of "''//  x''" "''  // ''"] h3 g3 t3 by auto
  show ?thesis using a b c by blast
qed

text \<open>
  The claim as stated compares the widths of the white space after \<open>//\<close>. It fails
  for an indented opening directive: the line \<open>//   foo\<close> has three spaces after
  \<open>//\<close> and the directive one, yet the line is not accepted, because its comment
  prefix (5 characters) is shorter than that of the directive (7 characters).
\<close>

theorem C5_counterexample:
  "commentIndentWidth ''    // @block_replace X'' \<le> commentIndentWidth ''//   foo''
   \<and> startsWith (trim ''//   foo'') ''//''
   \<and> parseTemplateLine ''//   foo'' = Inr None
   \<and> getCommentIndent ''    // @block_replace X'' = Some ''    // ''
   \<and> contentLineStep ''    // '' ''//   foo'' = Break
   \<and> parseTemplateContent [''    // @block_replace X'', ''//   foo''] 1 ''    // ''
       = Inr ([], 1, None)"
  by code_simp

subsection \<open>Frame preservation\<close>

lemma split_lines_nonempty: "split_lines t \<noteq> []"
  by (induction t rule: split_lines.induct) (auto split: list.splits)

lemma join_lines_Cons: "join_lines ((c # l) # ls) = c # join_lines (l # ls)"
  by (cases ls) simp_all

lemma join_lines_Nil_Cons: "ls \<noteq> [] \<Longrightarrow> join_lines ([] # ls) = CHR 0x0A # join_lines ls"
  by (cases ls) simp_all

lemma join_split_lines: "noCRLF t \<Longrightarrow> join_lines (split_lines t) = t"
proof (induction t rule: split_lines.induct)
  case 1
  then show ?case by simp
next
  case (2 c)
  then show ?case by simp
next
  case (3 c d cs)
  show ?case
  proof (cases "c = CHR 0x0A")
    case True
    then show ?thesis
      using 3 split_lines_nonempty [of "d # cs"] by (simp add: join_lines_Nil_Cons)
  next
    case False
    then have nc: "\<not> (c = CHR 0x0D \<and> d = CHR 0x0A)" using "3.prems" by simp
    obtain l ls where s: "split_lines (d # cs) = l # ls"
      using split_lines_nonempty [of "d # cs"] by (cases "split_lines (d # cs)") auto
    have "join_lines (l # ls) = d # cs" using "3.IH"(3) [OF False nc] "3.prems" s by simp
    moreover have "split_lines (c # d # cs) = (c # l) # ls"
      using False nc s by (cases "c = CHR 0x0D"; cases "d = CHR 0x0A"; simp)
    ultimately show ?thesis by (simp add: join_lines_Cons del: join_lines.simps)
  qed
qed

lemma recordedAt_recordBlock:
  assumes "i < length lns"
    and "parseTemplateLine (lns ! i) = Inr (Some (Block ty bid))"
    and "ty = block_default \<or> ty = block"
    and "getCommentIndent (lns ! i) = Some base"
    and "findEndblock lns (i + 1) = Inr endLn"
    and "if ty = block_default
         then \<exists>n t. parseTemplateContent lns (i + 1) base = Inr (content, n, t)
         else content = []"
  shows "recordedAt lns (recordBlock i ty bid base endLn content)"
  using assms by (auto simp: recordedAt_def recordBlock_def)

lemma scanLoop_recorded:
  "scanLoop p lns i bs reg = Inr (bs', reg') \<Longrightarrow> \<forall>b\<in>set bs. recordedAt lns b
   \<Longrightarrow> \<forall>b\<in>set bs'. recordedAt lns b"
proof (induction "length lns - i" arbitrary: i bs reg rule: less_induct)
  case less
  show ?case
  proof (cases "i < length lns")
    case False
    then show ?thesis using less.prems scanLoop_end [OF False, of p bs reg] by simp
  next
    case True
    then show ?thesis
    proof (cases rule: scanStep_cases [of i lns p bs reg])
      case (throw x j)
      then show ?thesis using less.prems scanLoop_err [OF True] by simp
    next
      case (plain d)
      have "scanLoop p lns (i + 1) bs reg = Inr (bs', reg')"
        using less.prems scanLoop_step [OF True plain(3)] by simp
      moreover have "length lns - (i + 1) < length lns - i" using True by simp
      ultimately show ?thesis using less.hyps [of "i + 1"] less.prems(2) by blast
    next
      case (blk ty bid base endLn content rg)
      let ?b = "recordBlock i ty bid base endLn content"
      have fp: "i + 1 \<le> endLn" using findEndblock_props [OF blk(4)] True by simp
      have "scanLoop p lns (endLn + 1) (bs @ [?b]) rg = Inr (bs', reg')"
        using less.prems scanLoop_step [OF True blk(6)] by simp
      moreover have "recordedAt lns ?b"
        using recordedAt_recordBlock [OF True blk(1) blk(2) blk(3) blk(4) blk(5)] .
      then have "\<forall>b\<in>set (bs @ [?b]). recordedAt lns b" using less.prems(2) by simp
      moreover have "length lns - (endLn + 1) < length lns - i" using True fp by linarith
      ultimately show ?thesis using less.hyps [of "endLn + 1"] by blast
    next
      case (feed ty bid base content n t rg)
      have pp: "i + 1 \<le> n" using parseTemplateContent_props [OF feed(4)] True by simp
      have "scanLoop p lns n bs rg = Inr (bs', reg')"
        using less.prems scanLoop_step [OF True feed(5)] by simp
      moreover have "length lns - n < length lns - i" using True pp by linarith
      ultimately show ?thesis using less.hyps [of n] less.prems(2) by blast
    qed
  qed
qed

lemma parseFile_recorded:
  assumes "parseFile reg p text = Inr (fd, reg')"
  shows "\<forall>b\<in>set (f_blocks fd). recordedAt (f_lines fd) b"
  using parseFile_scan [OF assms]
    scanLoop_recorded [of p "split_lines text" 0 "[]" reg "f_blocks fd" reg']
  by simp

lemma recordedAt_marks:
  assumes "recordedAt lns b"
  shows "b_startLine b < b_endLine b \<and> b_endLine b \<le> length lns
     \<and> parseTemplateLine (lns ! b_startLine b) = Inr (Some (Block (b_type b) (b_blockId b)))
     \<and> (b_type b = block_default \<or> b_type b = block)
     \<and> (b_endLine b < length lns \<longrightarrow>
          parseTemplateLine (lns ! b_endLine b) = Inr (Some Endblock))
     \<and> (\<forall>j. b_startLine b < j \<and> j < b_endLine b \<longrightarrow>
          parseTemplateLine (lns ! j) \<noteq> Inr (Some Endblock))"
proof -
  have fe: "findEndblock lns (b_startLine b + 1) = Inr (b_endLine b)"
    and st: "b_startLine b < length lns"
    using assms by (simp_all add: recordedAt_def)
  have fp: "b_startLine b + 1 \<le> b_endLine b \<and> b_endLine b \<le> length lns
     \<and> (b_endLine b < length lns \<longrightarrow> parseTemplateLine (lns ! b_endLine b) = Inr (Some Endblock))
     \<and> (\<forall>j. b_startLine b + 1 \<le> j \<and> j < b_endLine b \<longrightarrow>
            (\<exists>d. parseTemplateLine (lns ! j) = Inr d \<and> d \<noteq> Some Endblock))"
    using findEndblock_props [OF fe] st by simp
  have "parseTemplateLine (lns ! j) \<noteq> Inr (Some Endblock)"
    if lo: "b_startLine b < j" and hi: "j < b_endLine b" for j
  proof -
    have "b_startLine b + 1 \<le> j" using lo by simp
    then obtain d where "parseTemplateLine (lns ! j) = Inr d" "d \<noteq> Some Endblock"
      using fp hi by blast
    then show ?thesis by simp
  qed
  then show ?thesis using fp assms by (simp add: recordedAt_def)
qed

text \<open>
  Claim C3 (frame preservation), as amended. For every file record that the scanner
  produces, each recorded occurrence starts at a line that is its \<open>block_default\<close> or
  \<open>block\<close> opening directive and ends at the first \<open>@endblock\<close> directive line after
  it (at the end of the file when there is none), and the occurrences are ordered and
  disjoint. The patched line sequence is the original one with only the lines strictly
  between the opening and the closing line of each occurrence replaced: the lines
  before the first opening directive, every opening directive line, every closing
  \<open>@endblock\<close> line and all lines between a closing line and the next opening
  directive are the original lines, in order. The text written joins these lines with
  LF, and the original text is the LF join of its lines when none of its lines ends in
  CR LF.
\<close>

theorem C3_frame_preservation:
  "parseFile reg0 p text = Inr (fd, reg') \<longrightarrow>
     spansDisjoint (f_blocks fd)
     \<and> (\<forall>b\<in>set (f_blocks fd).
           b_startLine b < b_endLine b \<and> b_endLine b \<le> length (f_lines fd)
           \<and> parseTemplateLine (f_lines fd ! b_startLine b)
               = Inr (Some (Block (b_type b) (b_blockId b)))
           \<and> (b_type b = block_default \<or> b_type b = block)
           \<and> (b_endLine b < length (f_lines fd) \<longrightarrow>
                parseTemplateLine (f_lines fd ! b_endLine b) = Inr (Some Endblock))
           \<and> (\<forall>j. b_startLine b < j \<and> j < b_endLine b \<longrightarrow>
                parseTemplateLine (f_lines fd ! j) \<noteq> Inr (Some Endblock)))
     \<and> patchFile reg fd = spliceAll reg (f_lines fd) 0 (f_blocks fd)
     \<and> (outputFile reg fd = None
        \<or> outputFile reg fd = Some (join_lines (spliceAll reg (f_lines fd) 0 (f_blocks fd))))
     \<and> (noCRLF text \<longrightarrow> join_lines (f_lines fd) = text)"
proof
  assume pf: "parseFile reg0 p text = Inr (fd, reg')"
  have sp: "spansDisjoint (f_blocks fd)"
      "\<forall>b\<in>set (f_blocks fd). spanWithin (length (f_lines fd)) b \<and> 0 \<le> b_startLine b + 1"
    using parseFile_spans [OF pf] by auto
  have 0: "\<forall>b\<in>set (f_blocks fd).
           b_startLine b < b_endLine b \<and> b_endLine b \<le> length (f_lines fd)
           \<and> parseTemplateLine (f_lines fd ! b_startLine b)
               = Inr (Some (Block (b_type b) (b_blockId b)))
           \<and> (b_type b = block_default \<or> b_type b = block)
           \<and> (b_endLine b < length (f_lines fd) \<longrightarrow>
                parseTemplateLine (f_lines fd ! b_endLine b) = Inr (Some Endblock))
           \<and> (\<forall>j. b_startLine b < j \<and> j < b_endLine b \<longrightarrow>
                parseTemplateLine (f_lines fd ! j) \<noteq> Inr (Some Endblock))"
    using parseFile_recorded [OF pf] recordedAt_marks by blast
  have 1: "patchFile reg fd = spliceAll reg (f_lines fd) 0 (f_blocks fd)"
    using patchFile_spliceAll_aux [OF sp, of reg] by (simp add: patchFile_def)
  have 2: "f_lines fd = split_lines text" using parseFile_scan [OF pf] by simp
  have 3: "outputFile reg fd = None
        \<or> outputFile reg fd = Some (join_lines (spliceAll reg (f_lines fd) 0 (f_blocks fd)))"
    using 1 by (simp add: outputFile_def)
  have 4: "noCRLF text \<longrightarrow> join_lines (f_lines fd) = text"
    using 2 join_split_lines by simp
  show "spansDisjoint (f_blocks fd)
     \<and> (\<forall>b\<in>set (f_blocks fd).
           b_startLine b < b_endLine b \<and> b_endLine b \<le> length (f_lines fd)
           \<and> parseTemplateLine (f_lines fd ! b_startLine b)
               = Inr (Some (Block (b_type b) (b_blockId b)))
           \<and> (b_type b = block_default \<or> b_type b = block)
           \<and> (b_endLine b < length (f_lines fd) \<longrightarrow>
                parseTemplateLine (f_lines fd ! b_endLine b) = Inr (Some Endblock))
           \<and> (\<forall>j. b_startLine b < j \<and> j < b_endLine b \<longrightarrow>
                parseTemplateLine (f_lines fd ! j) \<noteq> Inr (Some Endblock)))
     \<and> patchFile reg fd = spliceAll reg (f_lines fd) 0 (f_blocks fd)
     \<and> (outputFile reg fd = None
        \<or> outputFile reg fd = Some (join_lines (spliceAll reg (f_lines fd) 0 (f_blocks fd))))
     \<and> (noCRLF text \<longrightarrow> join_lines (f_lines fd) = text)"
    using sp(1) 0 1 3 4 by (intro conjI)
qed

theorem C3_frame_preservation_witness:
  "\<exists>fd reg'. parseFile Map.empty ''f.c'' exampleFile = Inr (fd, reg')
     \<and> f_lines fd
         = [''// @block_default X'', ''//   a'', ''a'', ''// @endblock'', ''x'',
            ''// @block Y'', ''// @endblock'', ''// @block_append Y'', ''//  c'']
     \<and> map (\<lambda>b. (b_startLine b, b_endLine b)) (f_blocks fd) = [(0, 3), (5, 6)]
     \<and> patchFile reg' fd
         = [''// @block_default X'', ''//   a'', ''a'', ''// @endblock'', ''x'',
            ''// @block Y'', ''c'', ''// @endblock'', ''// @block_append Y'', ''//  c'']
     \<and> spliceAll reg' (f_lines fd) 0 (f_blocks fd) = patchFile reg' fd
     \<and> join_lines (f_lines fd) = exampleFile"
proof -
  have "\<not> isl (parseFile Map.empty ''f.c'' exampleFile)" by code_simp
  then obtain fd reg' where pf: "parseFile Map.empty ''f.c'' exampleFile = Inr (fd, reg')"
    by (cases "parseFile Map.empty ''f.c'' exampleFile") auto
  have n: "noCRLF exampleFile" by code_simp
  note t = C3_frame_preservation [of Map.empty "''f.c''" exampleFile fd reg' reg']
  have a: "patchFile reg' fd = spliceAll reg' (f_lines fd) 0 (f_blocks fd)"
    using t pf by simp
  have b: "join_lines (f_lines fd) = exampleFile" using t pf n by simp
  have "map_sum id (\<lambda>(fd, reg). (f_lines fd,
            map (\<lambda>b. (b_startLine b, b_endLine b)) (f_blocks fd), patchFile reg fd))
          (parseFile Map.empty ''f.c'' exampleFile)
        = Inr ([''// @block_default X'', ''//   a'', ''a'', ''// @endblock'', ''x'',
                ''// @block Y'', ''// @endblock'', ''// @block_append Y'', ''//  c''],
               [(0, 3), (5, 6)],
               [''// @block_default X'', ''//   a'', ''a'', ''// @endblock'', ''x'',
                ''// @block Y'', ''c'', ''// @endblock'', ''// @block_append Y'', ''//  c''])"
    by code_simp
  then have c: "f_lines fd
         = [''// @block_default X'', ''//   a'', ''a'', ''// @endblock'', ''x'',
            ''// @block Y'', ''// @endblock'', ''// @block_append Y'', ''//  c'']"
      "map (\<lambda>b. (b_startLine b, b_endLine b)) (f_blocks fd) = [(0, 3), (5, 6)]"
      "patchFile reg' fd
         = [''// @block_default X'', ''//   a'', ''a'', ''// @endblock'', ''x'',
            ''// @block Y'', ''c'', ''// @endblock'', ''// @block_append Y'', ''//  c'']"
    using pf by simp_all
  show ?thesis
  proof (rule exI [of _ fd], rule exI [of _ reg'], intro conjI)
    show "parseFile Map.empty ''f.c'' exampleFile = Inr (fd, reg')" by (rule pf)
    show "f_lines fd
         = [''// @block_default X'', ''//   a'', ''a'', ''// @endblock'', ''x'',
            ''// @block Y'', ''// @endblock'', ''// @block_append Y'', ''//  c'']"
      by (rule c(1))
    show "map (\<lambda>b. (b_startLine b, b_endLine b)) (f_blocks fd) = [(0, 3), (5, 6)]"
      by (rule c(2))
    show "patchFile reg' fd
         = [''// @block_default X'', ''//   a'', ''a'', ''// @endblock'', ''x'',
            ''// @block Y'', ''c'', ''// @endblock'', ''// @block_append Y'', ''//  c'']"
      by (rule c(3))
    show "spliceAll reg' (f_lines fd) 0 (f_blocks fd) = patchFile reg' fd"
      by (rule a [symmetric])
    show "join_lines (f_lines fd) = exampleFile" by (rule b)
  qed
qed

text \<open>
  The claim as stated, on bytes, fails for a file with CR LF line ends: the run writes
  the file with LF line ends, so the CR bytes, which lie outside every span, are gone.
\<close>

theorem C3_counterexample:
  "process [(''f.c'', exampleCRLF)]
     = Inr [(''f.c'', ''int x;'' @ [CHR 0x0A] @ ''// @block X'' @ [CHR 0x0A] @ ''// @endblock'')]"
  by code_simp

subsection \<open>Indentation round trip\<close>





























end
